theory Spec2Isabelle
  imports Complex_Main "HOL-Library.AList" "HOL-Library.Sublist"
begin

chapter \<open>Merging Helm values in keadm\<close>

text \<open>
  A model of \<^verbatim>\<open>keadm/cmd/keadm/app/cmd/helm/values.go\<close>: the type \<^verbatim>\<open>Options\<close>, the method
  \<^verbatim>\<open>MergeValues\<close> and the functions \<^verbatim>\<open>mergeMaps\<close> and \<^verbatim>\<open>readFile\<close>, with the properties
  of the merge, of the order of processing, of the errors and of the file reads that hold
  of them.

  \<^verbatim>\<open>mergeMaps\<close> is modelled twice: on documents, where a map is the list of its entries,
  for what the merge computes; and on a heap of map objects, where a map is an address,
  for what the merge writes. The second version is shown to compute the first.
\<close>

section \<open>Values documents\<close>

text \<open>
  The Go code works on \<^verbatim>\<open>map[string]interface{}\<close>. A value stored in such a map is a
  scalar, a slice of values, or again a map. A map is an association list whose keys are
  pairwise distinct; the order of the list is the order in which a \<^verbatim>\<open>range\<close> loop
  visits the entries, which Go leaves unspecified, so two lists with the same entries in
  a different order stand for the same map.
\<close>

datatype scalar = SNull | SBool bool | SInt int | SFloat real | SStr string

datatype val = Scalar scalar | Seq "val list" | Doc "(string \<times> val) list"

type_synonym doc = "(string \<times> val) list"

text \<open>\<^verbatim>\<open>v, ok := m[k]\<close>\<close>

definition lookup :: "doc \<Rightarrow> string \<Rightarrow> val option" where
  "lookup m k = map_of m k"

text \<open>\<^verbatim>\<open>m[k] = v\<close>\<close>

definition store :: "string \<Rightarrow> val \<Rightarrow> doc \<Rightarrow> doc" where
  "store k v m = AList.update k v m"

definition keys :: "doc \<Rightarrow> string list" where
  "keys m = map fst m"

section \<open>mergeMaps\<close>

text \<open>
  The first loop of \<^verbatim>\<open>mergeMaps\<close>: \<^verbatim>\<open>for k, v := range a { out[k] = v }\<close>.
\<close>

fun copyEntries :: "doc \<Rightarrow> doc \<Rightarrow> doc" where
  "copyEntries [] out = out"
| "copyEntries ((k, v) # a) out = copyEntries a (store k v out)"

text \<open>
  \<^verbatim>\<open>mergeMaps\<close> starts from the empty map \<^verbatim>\<open>out\<close>, copies \<^verbatim>\<open>a\<close> into it and then runs
  the second loop over \<^verbatim>\<open>b\<close>: when the incoming value is a map and \<^verbatim>\<open>out\<close> already holds a
  map under the same key, the two are merged recursively; in every other case the
  incoming value is stored.
\<close>

fun mergeMaps :: "doc \<Rightarrow> doc \<Rightarrow> doc"
  and mergeEntries :: "doc \<Rightarrow> doc \<Rightarrow> doc" where
  "mergeMaps a b = mergeEntries b (copyEntries a [])"
| "mergeEntries [] out = out"
| "mergeEntries ((k, v) # b) out =
     (case v of
        Doc vm \<Rightarrow>
          (case lookup out k of
             Some (Doc bv) \<Rightarrow> mergeEntries b (store k (Doc (mergeMaps bv vm)) out)
           | _ \<Rightarrow> mergeEntries b (store k v out))
      | _ \<Rightarrow> mergeEntries b (store k v out))"

text \<open>The value that one round of the second loop stores under its key.\<close>

definition mergedValue :: "val option \<Rightarrow> val \<Rightarrow> val" where
  "mergedValue old v =
     (case v of
        Doc vm \<Rightarrow> (case old of Some (Doc bv) \<Rightarrow> Doc (mergeMaps bv vm) | _ \<Rightarrow> v)
      | _ \<Rightarrow> v)"

section \<open>Well-formed documents and semantic equality\<close>

text \<open>
  A Go map has each key once. \<open>wfVal\<close> says so for a value and for every document
  nested in it.
\<close>

fun wfVal :: "val \<Rightarrow> bool" where
  "wfVal (Scalar x) = True"
| "wfVal (Seq xs) = list_all wfVal xs"
| "wfVal (Doc m) = (distinct (map fst m) \<and> list_all (\<lambda>p. wfVal (snd p)) m)"

definition wfDoc :: "doc \<Rightarrow> bool" where
  "wfDoc m = wfVal (Doc m)"

text \<open>
  Two values are semantically equal when they are the same scalar, sequences of
  semantically equal elements, or documents with the same keys and semantically equal
  values under each key, whatever the order of the entries.
\<close>

fun valEq :: "val \<Rightarrow> val \<Rightarrow> bool" where
  "valEq (Scalar x) w = (w = Scalar x)"
| "valEq (Seq xs) w = (case w of Seq ys \<Rightarrow> list_all2 valEq xs ys | _ \<Rightarrow> False)"
| "valEq (Doc a) w =
     (case w of
        Doc b \<Rightarrow>
          list_all (\<lambda>p. case lookup b (fst p) of Some y \<Rightarrow> valEq (snd p) y | None \<Rightarrow> False) a
          \<and> list_all (\<lambda>q. fst q \<in> set (map fst a)) b
      | _ \<Rightarrow> False)"

definition docEq :: "doc \<Rightarrow> doc \<Rightarrow> bool" where
  "docEq a b = valEq (Doc a) (Doc b)"

section \<open>Errors\<close>

text \<open>
  Errors are values. \<open>Opaque\<close> is an error made outside this package (by the operating
  system, the YAML decoder or the assignment parsers), known by its text only;
  \<open>Errorf\<close> is \<^verbatim>\<open>errors.Errorf\<close>, a new error with the formatted text and no cause;
  \<open>Wrap err m\<close> is \<^verbatim>\<open>errors.Wrap(err, m)\<close> and \<^verbatim>\<open>errors.Wrapf\<close>, which keep \<open>err\<close> as
  the cause.
\<close>

datatype error = Opaque string | Errorf string | Wrap error string

text \<open>\<^verbatim>\<open>err.Error()\<close>\<close>

fun errorText :: "error \<Rightarrow> string" where
  "errorText (Opaque m) = m"
| "errorText (Errorf m) = m"
| "errorText (Wrap err m) = m @ '': '' @ errorText err"

text \<open>The error itself followed by its causes, outermost first.\<close>

fun chain :: "error \<Rightarrow> error list" where
  "chain (Wrap err m) = Wrap err m # chain err"
| "chain err = [err]"

section \<open>Files and standard input\<close>

text \<open>
  The part of the environment that \<^verbatim>\<open>MergeValues\<close> reads: what \<^verbatim>\<open>os.ReadFile\<close> returns
  for each path, the bytes of standard input that have not been consumed, the error a
  read of standard input ends with (if any), and a log of the reads attempted so far,
  earliest first. A computation takes the environment and returns its result with the
  environment after it.
\<close>

datatype ioEvent = OpenFile string | ReadStdin

record world =
  files :: "string \<Rightarrow> error + string"
  stdin :: string
  stdinError :: "error option"
  events :: "ioEvent list"

type_synonym 'a io = "world \<Rightarrow> (error + 'a) \<times> world"

text \<open>\<^verbatim>\<open>io.ReadAll(os.Stdin)\<close>: everything up to the end of the stream.\<close>

definition ReadAllStdin :: "string io" where
  "ReadAllStdin w =
     ((case stdinError w of Some err \<Rightarrow> Inl err | None \<Rightarrow> Inr (stdin w)),
      w\<lparr>stdin := [], events := events w @ [ReadStdin]\<rparr>)"

text \<open>\<^verbatim>\<open>os.ReadFile(name)\<close>\<close>

definition ReadFile :: "string \<Rightarrow> string io" where
  "ReadFile name w = (files w name, w\<lparr>events := events w @ [OpenFile name]\<rparr>)"

section \<open>The external libraries\<close>

text \<open>
  \<^verbatim>\<open>strings.TrimSpace\<close>, \<^verbatim>\<open>yaml.Unmarshal\<close> and the five parsers of \<^verbatim>\<open>strvals\<close> are not
  part of this package and are parameters of the model. \<open>Unmarshal lib bytes\<close> is the map
  that \<^verbatim>\<open>yaml.Unmarshal\<close> leaves in the fresh empty \<^verbatim>\<open>currentMap\<close>. A parser of
  \<^verbatim>\<open>strvals\<close> updates \<^verbatim>\<open>base\<close> in place and returns an error or nil; here it returns the
  error or the updated map. \<^verbatim>\<open>ParseIntoFile\<close> also takes the function that reads the file
  named by a right-hand side.
\<close>

type_synonym parser = "string \<Rightarrow> doc \<Rightarrow> error + doc"

record lib =
  TrimSpace :: "string \<Rightarrow> string"
  Unmarshal :: "string \<Rightarrow> error + doc"
  ParseJSON :: parser
  ParseInto :: parser
  ParseIntoString :: parser
  ParseIntoFile :: "string \<Rightarrow> doc \<Rightarrow> (string \<Rightarrow> val io) \<Rightarrow> doc io"
  ParseLiteralInto :: parser

section \<open>MergeValues\<close>

record Options =
  ValueFiles :: "string list"
  StringValues :: "string list"
  Values :: "string list"
  FileValues :: "string list"
  JSONValues :: "string list"
  LiteralValues :: "string list"

definition readFile :: "lib \<Rightarrow> string \<Rightarrow> string io" where
  "readFile lib filePath w =
     (if TrimSpace lib filePath = ''-'' then ReadAllStdin w else ReadFile filePath w)"

text \<open>
  A \<^verbatim>\<open>for _, x := range xs\<close> loop over a slice whose body either updates \<^verbatim>\<open>base\<close> or
  leaves the function with an error.
\<close>

fun forEach :: "('a \<Rightarrow> doc \<Rightarrow> doc io) \<Rightarrow> 'a list \<Rightarrow> doc \<Rightarrow> doc io" where
  "forEach body [] base w = (Inr base, w)"
| "forEach body (x # xs) base w =
     (case body x base w of
        (Inl err, w') \<Rightarrow> (Inl err, w')
      | (Inr base', w') \<Rightarrow> forEach body xs base' w')"

text \<open>The bodies of the six loops, in the order of the source.\<close>

definition valueFile :: "lib \<Rightarrow> string \<Rightarrow> doc \<Rightarrow> doc io" where
  "valueFile lib filePath base w =
     (case readFile lib filePath w of
        (Inl err, w') \<Rightarrow> (Inl err, w')
      | (Inr bytes, w') \<Rightarrow>
          (case Unmarshal lib bytes of
             Inl err \<Rightarrow> (Inl (Wrap err (''failed to parse '' @ filePath)), w')
           | Inr currentMap \<Rightarrow> (Inr (mergeMaps base currentMap), w')))"

definition jsonValue :: "lib \<Rightarrow> string \<Rightarrow> doc \<Rightarrow> doc io" where
  "jsonValue lib value base w =
     (case ParseJSON lib value base of
        Inl err \<Rightarrow> (Inl (Errorf (''failed parsing --set-json data '' @ value)), w)
      | Inr base' \<Rightarrow> (Inr base', w))"

definition setValue :: "lib \<Rightarrow> string \<Rightarrow> doc \<Rightarrow> doc io" where
  "setValue lib value base w =
     (case ParseInto lib value base of
        Inl err \<Rightarrow> (Inl (Wrap err ''failed parsing --set data''), w)
      | Inr base' \<Rightarrow> (Inr base', w))"

definition stringValue :: "lib \<Rightarrow> string \<Rightarrow> doc \<Rightarrow> doc io" where
  "stringValue lib value base w =
     (case ParseIntoString lib value base of
        Inl err \<Rightarrow> (Inl (Wrap err ''failed parsing --set-string data''), w)
      | Inr base' \<Rightarrow> (Inr base', w))"

text \<open>The closure \<^verbatim>\<open>reader\<close> handed to \<^verbatim>\<open>strvals.ParseIntoFile\<close>.\<close>

definition reader :: "lib \<Rightarrow> string \<Rightarrow> val io" where
  "reader lib rs w =
     (case readFile lib rs w of
        (Inl err, w') \<Rightarrow> (Inl err, w')
      | (Inr bytes, w') \<Rightarrow> (Inr (Scalar (SStr bytes)), w'))"

definition fileValue :: "lib \<Rightarrow> string \<Rightarrow> doc \<Rightarrow> doc io" where
  "fileValue lib value base w =
     (case ParseIntoFile lib value base (reader lib) w of
        (Inl err, w') \<Rightarrow> (Inl (Wrap err ''failed parsing --set-file data''), w')
      | (Inr base', w') \<Rightarrow> (Inr base', w'))"

definition literalValue :: "lib \<Rightarrow> string \<Rightarrow> doc \<Rightarrow> doc io" where
  "literalValue lib value base w =
     (case ParseLiteralInto lib value base of
        Inl err \<Rightarrow> (Inl (Wrap err ''failed parsing --set-literal data''), w)
      | Inr base' \<Rightarrow> (Inr base', w))"

text \<open>
  \<^verbatim>\<open>MergeValues\<close> returns a pair of a map and an error: \<^verbatim>\<open>nil, err\<close> from the first loop
  body that fails, \<^verbatim>\<open>base, nil\<close> when all six loops have run.
\<close>

type_synonym outcome = "(doc option \<times> error option) \<times> world"

definition MergeValues :: "lib \<Rightarrow> Options \<Rightarrow> world \<Rightarrow> outcome" where
  "MergeValues lib opts w =
     (case forEach (valueFile lib) (ValueFiles opts) [] w of
        (Inl err, w1) \<Rightarrow> ((None, Some err), w1)
      | (Inr base, w1) \<Rightarrow>
     (case forEach (jsonValue lib) (JSONValues opts) base w1 of
        (Inl err, w2) \<Rightarrow> ((None, Some err), w2)
      | (Inr base, w2) \<Rightarrow>
     (case forEach (setValue lib) (Values opts) base w2 of
        (Inl err, w3) \<Rightarrow> ((None, Some err), w3)
      | (Inr base, w3) \<Rightarrow>
     (case forEach (stringValue lib) (StringValues opts) base w3 of
        (Inl err, w4) \<Rightarrow> ((None, Some err), w4)
      | (Inr base, w4) \<Rightarrow>
     (case forEach (fileValue lib) (FileValues opts) base w4 of
        (Inl err, w5) \<Rightarrow> ((None, Some err), w5)
      | (Inr base, w5) \<Rightarrow>
     (case forEach (literalValue lib) (LiteralValues opts) base w5 of
        (Inl err, w6) \<Rightarrow> ((None, Some err), w6)
      | (Inr base, w6) \<Rightarrow> ((Some base, None), w6)))))))"

section \<open>The processing order of the specification\<close>

text \<open>
  The specification describes \<^verbatim>\<open>MergeValues\<close> as one pass over a single sequence of
  steps: every values-file, then every JSON-fragment, plain, string-forced, file-content
  and literal assignment, each kind in the order given. \<open>priorityOrder\<close> is that
  sequence.
\<close>

datatype step =
  ValueFile string | JSONValue string | SetValue string | StringValue string
  | FileValue string | LiteralValue string

definition priorityOrder :: "Options \<Rightarrow> step list" where
  "priorityOrder opts =
     map ValueFile (ValueFiles opts) @ map JSONValue (JSONValues opts)
     @ map SetValue (Values opts) @ map StringValue (StringValues opts)
     @ map FileValue (FileValues opts) @ map LiteralValue (LiteralValues opts)"

text \<open>
  What the specification says a step does to the accumulated document, in terms of the
  external libraries alone. A values-file is read, parsed and merged onto the document
  by the recursive merge rule; an assignment is parsed into the document by the parser of
  its kind, the file-content parser reading the files it names through \<open>reader\<close>. A step
  that fails gives the error of the read or of the parser, as the library made it.
\<close>

fun specStep :: "lib \<Rightarrow> step \<Rightarrow> doc \<Rightarrow> doc io" where
  "specStep lib (ValueFile filePath) acc w =
     (case readFile lib filePath w of
        (Inl err, w') \<Rightarrow> (Inl err, w')
      | (Inr bytes, w') \<Rightarrow>
          (case Unmarshal lib bytes of
             Inl err \<Rightarrow> (Inl err, w')
           | Inr parsed \<Rightarrow> (Inr (mergeMaps acc parsed), w')))"
| "specStep lib (JSONValue expr) acc w = (ParseJSON lib expr acc, w)"
| "specStep lib (SetValue expr) acc w = (ParseInto lib expr acc, w)"
| "specStep lib (StringValue expr) acc w = (ParseIntoString lib expr acc, w)"
| "specStep lib (FileValue expr) acc w = ParseIntoFile lib expr acc (reader lib) w"
| "specStep lib (LiteralValue expr) acc w = (ParseLiteralInto lib expr acc, w)"

text \<open>
  The pass of the specification: the steps one after the other on the accumulated
  document, and nothing after the first step that fails.
\<close>

fun specPass :: "lib \<Rightarrow> step list \<Rightarrow> doc \<Rightarrow> doc io" where
  "specPass lib [] acc w = (Inr acc, w)"
| "specPass lib (s # rest) acc w =
     (case specStep lib s acc w of
        (Inl err, w') \<Rightarrow> (Inl err, w')
      | (Inr acc', w') \<Rightarrow> specPass lib rest acc' w')"

text \<open>
  The same pass with the loop bodies of the source: \<open>runStep\<close> is the body that belongs
  to a step, \<open>finish\<close> the pair returned to the caller.
\<close>

fun runStep :: "lib \<Rightarrow> step \<Rightarrow> doc \<Rightarrow> doc io" where
  "runStep lib (ValueFile filePath) = valueFile lib filePath"
| "runStep lib (JSONValue value) = jsonValue lib value"
| "runStep lib (SetValue value) = setValue lib value"
| "runStep lib (StringValue value) = stringValue lib value"
| "runStep lib (FileValue value) = fileValue lib value"
| "runStep lib (LiteralValue value) = literalValue lib value"

definition finish :: "(error + doc) \<times> world \<Rightarrow> outcome" where
  "finish r =
     (case r of
        (Inl err, w) \<Rightarrow> ((None, Some err), w)
      | (Inr base, w) \<Rightarrow> ((Some base, None), w))"

section \<open>A concrete environment\<close>

text \<open>
  An instance of the external libraries, a file system and a standard input, for running
  the model on concrete inputs. The instance knows the few inputs listed here and rejects
  every other one; \<open>trimASCII\<close> removes the ASCII white space at both ends, which is what
  \<^verbatim>\<open>strings.TrimSpace\<close> does on ASCII text.
\<close>

definition asciiSpace :: "char \<Rightarrow> bool" where
  "asciiSpace c = (c \<in> set [CHR 0x09, CHR 0x0A, CHR 0x0B, CHR 0x0C, CHR 0x0D, CHR '' ''])"

definition trimASCII :: "string \<Rightarrow> string" where
  "trimASCII s = rev (dropWhile asciiSpace (rev (dropWhile asciiSpace s)))"

text \<open>The error of the YAML decoder for \<^verbatim>\<open>a: b: c\<close>.\<close>

definition notAllowed :: error where
  "notAllowed =
     Opaque (''error converting YAML to JSON: yaml: ''
             @ ''mapping values are not allowed in this context'')"

definition sampleUnmarshal :: "string \<Rightarrow> error + doc" where
  "sampleUnmarshal bytes =
     (if bytes = ''{a: {x: 1}}'' then Inr [(''a'', Doc [(''x'', Scalar (SFloat 1))])]
      else if bytes = ''{a: {z: 2}}'' then Inr [(''a'', Doc [(''z'', Scalar (SFloat 2))])]
      else if bytes = ''{a: {x: 1}, b: [true]}'' then
        Inr [(''a'', Doc [(''x'', Scalar (SFloat 1))]), (''b'', Seq [Scalar (SBool True)])]
      else if bytes = ''{a: 5}'' then Inr [(''a'', Scalar (SFloat 5))]
      else if bytes = ''a: b: c'' then Inl notAllowed
      else Inl (Opaque ''error converting YAML to JSON''))"

definition sampleParseJSON :: parser where
  "sampleParseJSON value base =
     (if value = ''a=[1,2]'' then Inr (store ''a'' (Seq [Scalar (SFloat 1), Scalar (SFloat 2)]) base)
      else if value = ''a={'' then Inl (Opaque ''unexpected EOF'')
      else Inl (Opaque ''unsupported expression''))"

text \<open>The text \<^verbatim>\<open>key "k" has no value\<close> of \<^verbatim>\<open>strvals\<close>.\<close>

definition noValue :: "string \<Rightarrow> error" where
  "noValue k = Opaque (''key '' @ [CHR 0x22] @ k @ [CHR 0x22] @ '' has no value'')"

definition sampleParseInto :: parser where
  "sampleParseInto value base =
     (if value = ''a=1'' then Inr (store ''a'' (Scalar (SInt 1)) base)
      else if value = ''x=1,a'' then Inl (noValue ''a'')
      else Inl (Opaque ''unsupported expression''))"

definition sampleParseIntoString :: parser where
  "sampleParseIntoString value base =
     (if value = ''a=1'' then Inr (store ''a'' (Scalar (SStr ''1'')) base)
      else if value = ''x=1,a'' then Inl (noValue ''a'')
      else Inl (Opaque ''unsupported expression''))"

definition sampleParseIntoFile :: "string \<Rightarrow> doc \<Rightarrow> (string \<Rightarrow> val io) \<Rightarrow> doc io" where
  "sampleParseIntoFile value base rd w =
     (if value = ''cert= - '' then
        (case rd '' - '' w of
           (Inl err, w') \<Rightarrow> (Inl err, w')
         | (Inr v, w') \<Rightarrow> (Inr (store ''cert'' v base), w'))
      else if value = ''cert=ca.pem'' then
        (case rd ''ca.pem'' w of
           (Inl err, w') \<Rightarrow> (Inl err, w')
         | (Inr v, w') \<Rightarrow> (Inr (store ''cert'' v base), w'))
      else if value = ''x=1,a'' then
        (case rd ''1'' w of
           (Inl err, w') \<Rightarrow> (Inl err, w')
         | (Inr v, w') \<Rightarrow> (Inl (noValue ''a''), w'))
      else (Inl (Opaque ''unsupported expression''), w))"

definition sampleParseLiteralInto :: parser where
  "sampleParseLiteralInto value base =
     (if value = ''key=a,b=c'' then Inr (store ''key'' (Scalar (SStr ''a,b=c'')) base)
      else if value = ''a'' then Inl (noValue ''a'')
      else if value = ''a.b'' then Inl (noValue ''b'')
      else Inl (Opaque ''unsupported expression''))"

definition sampleLib :: lib where
  "sampleLib =
     \<lparr>TrimSpace = trimASCII, Unmarshal = sampleUnmarshal, ParseJSON = sampleParseJSON,
      ParseInto = sampleParseInto, ParseIntoString = sampleParseIntoString,
      ParseIntoFile = sampleParseIntoFile, ParseLiteralInto = sampleParseLiteralInto\<rparr>"

definition sampleFiles :: "string \<Rightarrow> error + string" where
  "sampleFiles name =
     (if name = ''values.yaml'' then Inr ''{a: {x: 1}}''
      else if name = ''override.yaml'' then Inr ''{a: {z: 2}}''
      else if name = ''both.yaml'' then Inr ''{a: {x: 1}, b: [true]}''
      else if name = ''broken.yaml'' then Inr ''a: b: c''
      else if name = ''ca.pem'' then Inr ''PEM''
      else Inl (Opaque (''open '' @ name @ '': no such file or directory'')))"

definition sampleWorld :: world where
  "sampleWorld = \<lparr>files = sampleFiles, stdin = ''{a: 5}'', stdinError = None, events = []\<rparr>"

definition noOptions :: Options where
  "noOptions =
     \<lparr>ValueFiles = [], StringValues = [], Values = [], FileValues = [],
      JSONValues = [], LiteralValues = []\<rparr>"

section \<open>Two runs\<close>

text \<open>
  Two runs of \<^verbatim>\<open>MergeValues\<close> may hold the same map with its entries in a different
  order. \<open>docRel\<close> relates two well-formed documents that are semantically equal;
  \<open>sameLibrary\<close> relates two behaviours of the external libraries that return the same
  errors and related documents, given related documents; \<open>permutedLib\<close> is the concrete
  library with the entries of every decoded file in the opposite order.
\<close>

definition docRel :: "doc \<Rightarrow> doc \<Rightarrow> bool" where
  "docRel d d' = (wfDoc d \<and> wfDoc d' \<and> docEq d d')"

definition sameResult :: "(error + doc) \<times> world \<Rightarrow> (error + doc) \<times> world \<Rightarrow> bool" where
  "sameResult r r' = (rel_sum (=) docRel (fst r) (fst r') \<and> snd r = snd r')"

definition sameLibrary :: "lib \<Rightarrow> lib \<Rightarrow> bool" where
  "sameLibrary lib lib' =
     ((\<forall>s. TrimSpace lib s = TrimSpace lib' s)
      \<and> (\<forall>bytes. rel_sum (=) docRel (Unmarshal lib bytes) (Unmarshal lib' bytes))
      \<and> (\<forall>value base base'. docRel base base' \<longrightarrow>
            rel_sum (=) docRel (ParseJSON lib value base) (ParseJSON lib' value base'))
      \<and> (\<forall>value base base'. docRel base base' \<longrightarrow>
            rel_sum (=) docRel (ParseInto lib value base) (ParseInto lib' value base'))
      \<and> (\<forall>value base base'. docRel base base' \<longrightarrow>
            rel_sum (=) docRel (ParseIntoString lib value base) (ParseIntoString lib' value base'))
      \<and> (\<forall>value base base' w. docRel base base' \<longrightarrow>
            sameResult (ParseIntoFile lib value base (reader lib) w)
                       (ParseIntoFile lib' value base' (reader lib') w))
      \<and> (\<forall>value base base'. docRel base base' \<longrightarrow>
            rel_sum (=) docRel (ParseLiteralInto lib value base) (ParseLiteralInto lib' value base')))"

definition permutedLib :: lib where
  "permutedLib = sampleLib\<lparr>Unmarshal := (\<lambda>bytes. map_sum id rev (sampleUnmarshal bytes))\<rparr>"

section \<open>Maps as objects\<close>

text \<open>
  A Go map is a reference: two variables can name the same map, and \<^verbatim>\<open>out[k] = v\<close>
  changes the map for everyone who holds it. To say what \<^verbatim>\<open>mergeMaps\<close> writes, maps live
  in a heap, a list of map objects, and an address is a position in the list. A value
  stored in a map is a scalar, a slice, or the address of a map.
\<close>

type_synonym addr = nat

datatype hval = HScalar scalar | HSeq "hval list" | HMap addr

type_synonym hmap = "(string \<times> hval) list"

type_synonym heap = "hmap list"

text \<open>\<^verbatim>\<open>v, ok := m[k]\<close> and \<^verbatim>\<open>m[k] = v\<close> for the map at address \<open>p\<close>.\<close>

definition hlookup :: "heap \<Rightarrow> addr \<Rightarrow> string \<Rightarrow> hval option" where
  "hlookup h p k = map_of (h ! p) k"

definition hstore :: "addr \<Rightarrow> string \<Rightarrow> hval \<Rightarrow> heap \<Rightarrow> heap" where
  "hstore p k v h = h[p := AList.update k v (h ! p)]"

text \<open>The first loop of \<^verbatim>\<open>mergeMaps\<close>, over the entries of \<^verbatim>\<open>a\<close>, writing to \<^verbatim>\<open>out\<close>.\<close>

fun hcopyEntries :: "hmap \<Rightarrow> addr \<Rightarrow> heap \<Rightarrow> heap" where
  "hcopyEntries [] out h = h"
| "hcopyEntries ((k, v) # a) out h = hcopyEntries a out (hstore out k v h)"

text \<open>
  \<^verbatim>\<open>mergeMaps\<close> on the heap. \<^verbatim>\<open>make\<close> puts an empty map at the first free address. The
  loops run over the entries that \<^verbatim>\<open>a\<close> and \<^verbatim>\<open>b\<close> hold when the call starts. Maps can
  contain themselves, and then the recursion of the source never ends; the first argument
  bounds the depth of the recursion, and \<open>None\<close> is the result when the bound is reached or
  an address is not in the heap.
\<close>

function hmergeMaps :: "nat \<Rightarrow> addr \<Rightarrow> addr \<Rightarrow> heap \<Rightarrow> (addr \<times> heap) option"
  and hmergeEntries :: "nat \<Rightarrow> hmap \<Rightarrow> addr \<Rightarrow> heap \<Rightarrow> heap option" where
  "hmergeMaps 0 a b h = None"
| "hmergeMaps (Suc n) a b h =
     (if a < length h \<and> b < length h then
        (case hmergeEntries n (h ! b) (length h) (hcopyEntries (h ! a) (length h) (h @ [[]])) of
           None \<Rightarrow> None
         | Some h' \<Rightarrow> Some (length h, h'))
      else None)"
| "hmergeEntries n [] out h = Some h"
| "hmergeEntries n ((k, v) # b) out h =
     (case v of
        HMap vp \<Rightarrow>
          (case hlookup h out k of
             Some (HMap bvp) \<Rightarrow>
               (case hmergeMaps n bvp vp h of
                  None \<Rightarrow> None
                | Some (r, h') \<Rightarrow> hmergeEntries n b out (hstore out k (HMap r) h'))
           | _ \<Rightarrow> hmergeEntries n b out (hstore out k v h))
      | _ \<Rightarrow> hmergeEntries n b out (hstore out k v h))"
  by pat_completeness auto
termination
  by (relation "measures [\<lambda>x. case x of Inl (n, _) \<Rightarrow> n | Inr (n, _) \<Rightarrow> n,
                          \<lambda>x. case x of Inl _ \<Rightarrow> 0 | Inr (_, b, _) \<Rightarrow> Suc (length b)]") auto

text \<open>
  A heap is closed when every address stored directly in one of its maps is in the heap.
  \<open>nested n h p\<close> says that the map at \<open>p\<close> and the maps stored in it, down to the last
  one, are in the heap and no deeper than \<open>n\<close>. \<open>extends g h\<close> says that \<open>h\<close> has
  every map of \<open>g\<close>, unchanged, at its address.
\<close>

fun validVal :: "heap \<Rightarrow> hval \<Rightarrow> bool" where
  "validVal h (HMap q) = (q < length h)"
| "validVal h v = True"

definition closed :: "heap \<Rightarrow> bool" where
  "closed h = list_all (\<lambda>m. list_all (\<lambda>kv. validVal h (snd kv)) m) h"

fun nested :: "nat \<Rightarrow> heap \<Rightarrow> addr \<Rightarrow> bool"
  and nestedVal :: "nat \<Rightarrow> heap \<Rightarrow> hval \<Rightarrow> bool" where
  "nested 0 h p = False"
| "nested (Suc n) h p = (p < length h \<and> list_all (\<lambda>kv. nestedVal n h (snd kv)) (h ! p))"
| "nestedVal n h (HMap q) = nested n h q"
| "nestedVal n h v = True"

definition extends :: "heap \<Rightarrow> heap \<Rightarrow> bool" where
  "extends g h = (length g \<le> length h \<and> take (length g) h = g)"

definition hkeys :: "heap \<Rightarrow> addr \<Rightarrow> string set" where
  "hkeys h p = set (map fst (h ! p))"

text \<open>
  Two maps \<^verbatim>\<open>{a: {x: 1}, b: 7}\<close> and \<^verbatim>\<open>{a: {y: 2}, c: []}\<close> at the addresses 0 and 1, their
  nested maps at 2 and 3.
\<close>

definition sampleHeap :: heap where
  "sampleHeap =
     [[(''a'', HMap 2), (''b'', HScalar (SInt 7))],
      [(''a'', HMap 3), (''c'', HSeq [])],
      [(''x'', HScalar (SInt 1))],
      [(''y'', HScalar (SInt 2))]]"

section \<open>From the heap to documents\<close>

text \<open>
  The document that the map at an address stands for, with the maps stored in it read
  from the heap down to the given depth. \<open>tree A n h p\<close> says that everything read on
  the way, through nested maps and slices, is in the heap, is an address that \<open>A\<close>
  allows, and lies no deeper than \<open>n\<close>; then the document is the whole of what the map
  holds.
\<close>

fun docOf :: "nat \<Rightarrow> heap \<Rightarrow> addr \<Rightarrow> doc"
  and valOf :: "nat \<Rightarrow> heap \<Rightarrow> hval \<Rightarrow> val" where
  "docOf 0 h p = []"
| "docOf (Suc n) h p = map (\<lambda>kv. (fst kv, valOf n h (snd kv))) (h ! p)"
| "valOf n h (HScalar x) = Scalar x"
| "valOf n h (HSeq xs) = Seq (map (valOf n h) xs)"
| "valOf n h (HMap q) = Doc (docOf n h q)"

fun tree :: "(addr \<Rightarrow> bool) \<Rightarrow> nat \<Rightarrow> heap \<Rightarrow> addr \<Rightarrow> bool"
  and treeVal :: "(addr \<Rightarrow> bool) \<Rightarrow> nat \<Rightarrow> heap \<Rightarrow> hval \<Rightarrow> bool" where
  "tree A 0 h p = False"
| "tree A (Suc n) h p =
     (A p \<and> p < length h \<and> list_all (\<lambda>kv. treeVal A n h (snd kv)) (h ! p))"
| "treeVal A n h (HScalar x) = True"
| "treeVal A n h (HSeq xs) = list_all (treeVal A n h) xs"
| "treeVal A n h (HMap q) = tree A n h q"

definition absE :: "nat \<Rightarrow> heap \<Rightarrow> string \<times> hval \<Rightarrow> string \<times> val" where
  "absE n h kv = (fst kv, valOf n h (snd kv))"

section \<open>Basic facts about lookup and store\<close>

lemma lookup_Nil: "lookup [] k = None"
  by (simp add: lookup_def)

lemma lookup_Cons: "lookup ((k, v) # m) k' = (if k' = k then Some v else lookup m k')"
  by (simp add: lookup_def)

lemma lookup_store: "lookup (store k v m) k' = (if k' = k then Some v else lookup m k')"
  by (simp add: lookup_def store_def update_conv')

lemma keys_store: "set (keys (store k v m)) = insert k (set (keys m))"
  by (simp add: keys_def store_def dom_update)

lemma distinct_store: "distinct (keys m) \<Longrightarrow> distinct (keys (store k v m))"
  by (simp add: keys_def store_def distinct_update)

lemma lookup_None_iff: "lookup m k = None \<longleftrightarrow> k \<notin> set (keys m)"
  by (simp add: lookup_def keys_def map_of_eq_None_iff)

section \<open>What the two loops compute\<close>

lemma lookup_copyEntries:
  "distinct (keys a) \<Longrightarrow>
   lookup (copyEntries a out) k = (case lookup a k of Some v \<Rightarrow> Some v | None \<Rightarrow> lookup out k)"
proof (induction a arbitrary: out)
  case Nil
  then show ?case by (simp add: lookup_Nil)
next
  case (Cons p a)
  obtain k' v' where p: "p = (k', v')" by (cases p)
  from Cons.prems p have d: "distinct (keys a)" and nk: "k' \<notin> set (keys a)"
    by (simp_all add: keys_def)
  from nk have none: "lookup a k' = None" by (simp add: lookup_None_iff)
  show ?case using Cons.IH[OF d, of "store k' v' out"] none p
    by (auto simp: lookup_store lookup_Cons split: option.splits)
qed

lemma mergeEntries_step:
  "mergeEntries ((k, v) # b) out = mergeEntries b (store k (mergedValue (lookup out k) v) out)"
  by (simp add: mergedValue_def split: val.splits option.splits)

lemma lookup_mergeEntries:
  "distinct (keys b) \<Longrightarrow>
   lookup (mergeEntries b out) k =
     (case lookup b k of None \<Rightarrow> lookup out k | Some v \<Rightarrow> Some (mergedValue (lookup out k) v))"
proof (induction b arbitrary: out)
  case Nil
  then show ?case by (simp add: lookup_Nil)
next
  case (Cons p b)
  obtain k' v' where p: "p = (k', v')" by (cases p)
  from Cons.prems p have d: "distinct (keys b)" and nk: "k' \<notin> set (keys b)"
    by (simp_all add: keys_def)
  from nk have none: "lookup b k' = None" by (simp add: lookup_None_iff)
  have step: "mergeEntries (p # b) out = mergeEntries b (store k' (mergedValue (lookup out k') v') out)"
    unfolding p by (rule mergeEntries_step)
  show ?case
    unfolding step
    using Cons.IH[OF d, of "store k' (mergedValue (lookup out k') v') out"] none p
    by (auto simp: lookup_store lookup_Cons split: option.splits)
qed

lemma lookup_mergeMaps:
  assumes "distinct (keys a)" and "distinct (keys b)"
  shows "lookup (mergeMaps a b) k =
    (case lookup b k of None \<Rightarrow> lookup a k | Some v \<Rightarrow> Some (mergedValue (lookup a k) v))"
proof -
  have c: "lookup (copyEntries a []) k = lookup a k"
    using lookup_copyEntries[OF assms(1), of "[]" k]
    by (simp add: lookup_Nil split: option.splits)
  show ?thesis
    using lookup_mergeEntries[OF assms(2), of "copyEntries a []" k]
    by (simp add: c split: option.splits)
qed

section \<open>Facts about well-formedness and semantic equality\<close>

declare wfVal.simps(3) [simp del]
declare valEq.simps(3) [simp del]

lemma wfVal_Doc [simp]: "wfVal (Doc m) = wfDoc m"
  by (simp add: wfDoc_def)

lemma valEq_Doc [simp]: "valEq (Doc a) (Doc b) = docEq a b"
  by (simp add: docEq_def)

lemma valEq_Doc_left: "valEq (Doc a) w \<longleftrightarrow> (\<exists>b. w = Doc b \<and> docEq a b)"
proof (cases w)
  case (Doc b)
  then show ?thesis by simp
qed (simp_all add: valEq.simps(3))

lemma copyEntries_id: "distinct (keys (out @ a)) \<Longrightarrow> copyEntries a out = out @ a"
proof (induction a arbitrary: out)
  case Nil
  then show ?case by simp
next
  case (Cons p a)
  obtain k v where p: "p = (k, v)" by (cases p)
  from Cons.prems p have nk: "k \<notin> set (keys out)" by (auto simp: keys_def)
  then have st: "store k v out = out @ [(k, v)]"
    by (induction out) (auto simp: store_def keys_def)
  show ?case using Cons.IH[of "out @ [(k, v)]"] Cons.prems p st by simp
qed

lemma mergeMaps_empty_right: "distinct (keys a) \<Longrightarrow> mergeMaps a [] = a"
  using copyEntries_id[of "[]" a] by simp

lemma mergeEntries_fresh:
  "distinct (keys (out @ b)) \<Longrightarrow> mergeEntries b out = out @ b"
proof (induction b arbitrary: out)
  case Nil
  then show ?case by simp
next
  case (Cons p b)
  obtain k v where p: "p = (k, v)" by (cases p)
  from Cons.prems p have nk: "k \<notin> set (keys out)" by (auto simp: keys_def)
  then have st: "store k v out = out @ [(k, v)]"
    by (induction out) (auto simp: store_def keys_def)
  from nk have none: "lookup out k = None" by (simp add: lookup_None_iff)
  have "mergeEntries (p # b) out = mergeEntries b (store k v out)"
    unfolding p mergeEntries_step by (simp add: none mergedValue_def split: val.splits)
  then show ?case using Cons.IH[of "out @ [(k, v)]"] Cons.prems p st by simp
qed

lemma mergeMaps_empty_left: "distinct (keys b) \<Longrightarrow> mergeMaps [] b = b"
  using mergeEntries_fresh[of "[]" b] by simp

lemma lookup_in_set: "lookup m k = Some v \<Longrightarrow> (k, v) \<in> set m"
  by (simp add: lookup_def map_of_SomeD)

lemma in_set_lookup: "distinct (keys m) \<Longrightarrow> (k, v) \<in> set m \<Longrightarrow> lookup m k = Some v"
  by (simp add: lookup_def keys_def)

lemma wfDoc_iff: "wfDoc m \<longleftrightarrow> distinct (keys m) \<and> (\<forall>p \<in> set m. wfVal (snd p))"
  unfolding wfDoc_def wfVal.simps(3) by (simp add: keys_def list_all_iff)

lemma wfDoc_distinct: "wfDoc m \<Longrightarrow> distinct (keys m)"
  by (simp add: wfDoc_iff)

lemma wfDoc_lookup: "wfDoc m \<Longrightarrow> lookup m k = Some v \<Longrightarrow> wfVal v"
  using lookup_in_set[of m k v] by (fastforce simp: wfDoc_iff)


lemma docEq_alt:
  "docEq a b \<longleftrightarrow>
     (\<forall>p \<in> set a. \<exists>y. lookup b (fst p) = Some y \<and> valEq (snd p) y)
     \<and> (\<forall>q \<in> set b. fst q \<in> set (keys a))"
  unfolding docEq_def valEq.simps(3)
  by (simp add: list_all_iff keys_def split: option.splits) fastforce

lemma docEq_iff:
  assumes "distinct (keys a)"
  shows "docEq a b \<longleftrightarrow> (\<forall>k. rel_option valEq (lookup a k) (lookup b k))"
proof
  assume e: "docEq a b"
  then have 1: "\<And>p. p \<in> set a \<Longrightarrow> \<exists>y. lookup b (fst p) = Some y \<and> valEq (snd p) y"
    and 2: "\<And>q. q \<in> set b \<Longrightarrow> fst q \<in> set (keys a)"
    unfolding docEq_alt by blast+
  show "\<forall>k. rel_option valEq (lookup a k) (lookup b k)"
  proof
    fix k
    show "rel_option valEq (lookup a k) (lookup b k)"
    proof (cases "lookup a k")
      case None
      then have "k \<notin> set (keys a)" by (simp add: lookup_None_iff)
      with 2 have "lookup b k = None"
        by (cases "lookup b k") (auto dest!: lookup_in_set)
      with None show ?thesis by simp
    next
      case (Some x)
      then have "(k, x) \<in> set a" by (rule lookup_in_set)
      from 1[OF this] Some show ?thesis by auto
    qed
  qed
next
  assume r: "\<forall>k. rel_option valEq (lookup a k) (lookup b k)"
  have 1: "\<exists>y. lookup b (fst p) = Some y \<and> valEq (snd p) y" if "p \<in> set a" for p
  proof -
    from that assms have "lookup a (fst p) = Some (snd p)"
      by (intro in_set_lookup) auto
    with r[rule_format, of "fst p"] show ?thesis
      by (auto simp: option_rel_Some1)
  qed
  have 2: "fst q \<in> set (keys a)" if "q \<in> set b" for q
  proof (rule ccontr)
    assume "fst q \<notin> set (keys a)"
    then have "lookup a (fst q) = None" by (simp add: lookup_None_iff)
    with r[rule_format, of "fst q"] have "lookup b (fst q) = None" by simp
    then have "fst q \<notin> set (keys b)" by (simp add: lookup_None_iff)
    with that show False by (simp add: keys_def)
  qed
  show "docEq a b"
    unfolding docEq_alt using 1 2 by blast
qed

lemma valEq_refl: "wfVal v \<Longrightarrow> valEq v v"
proof (induction v rule: wfVal.induct)
  case (1 x)
  then show ?case by simp
next
  case (2 xs)
  then show ?case by (auto simp: list_all_iff list_all2_same)
next
  case (3 m)
  from "3.prems" have d: "distinct (keys m)" and w: "\<And>p. p \<in> set m \<Longrightarrow> wfVal (snd p)"
    by (auto simp: wfDoc_iff)
  have "rel_option valEq (lookup m k) (lookup m k)" for k
  proof (cases "lookup m k")
    case None then show ?thesis by simp
  next
    case (Some x)
    then have "(k, x) \<in> set m" by (rule lookup_in_set)
    with "3.IH"[of "(k, x)"] w[of "(k, x)"] Some show ?thesis by simp
  qed
  then have "docEq m m" using docEq_iff[OF d, of m] by simp
  then show ?case by simp
qed

lemma docEq_refl: "wfDoc a \<Longrightarrow> docEq a a"
  using valEq_refl[of "Doc a"] by simp

lemma mergeEntries_same:
  assumes "\<And>k v. (k, v) \<in> set b \<Longrightarrow> lookup out k = Some v"
    and "\<And>k vm. (k, Doc vm) \<in> set b \<Longrightarrow> mergeMaps vm vm = vm"
  shows "mergeEntries b out = out"
  using assms
proof (induction b)
  case Nil
  then show ?case by simp
next
  case (Cons p b)
  obtain k v where p: "p = (k, v)" by (cases p)
  have l: "lookup out k = Some v" using Cons.prems(1)[of k v] p by simp
  have m: "mergedValue (Some v) v = v"
  proof (cases v)
    case (Doc vm)
    with Cons.prems(2)[of k vm] p show ?thesis by (simp add: mergedValue_def)
  qed (simp_all add: mergedValue_def)
  have s: "store k v out = out"
    using l by (simp add: store_def lookup_def update_triv)
  have "mergeEntries (p # b) out = mergeEntries b out"
    unfolding p mergeEntries_step l m s ..
  moreover have "mergeEntries b out = out"
    using Cons.prems by (intro Cons.IH) auto
  ultimately show ?case by simp
qed

lemma mergeMaps_idem_val: "wfVal v \<Longrightarrow> (case v of Doc a \<Rightarrow> mergeMaps a a = a | _ \<Rightarrow> True)"
proof (induction v rule: wfVal.induct)
  case (3 m)
  from "3.prems" have d: "distinct (keys m)" and w: "\<And>p. p \<in> set m \<Longrightarrow> wfVal (snd p)"
    by (auto simp: wfDoc_iff)
  have c: "copyEntries m [] = m" using copyEntries_id[of "[]" m] d by simp
  have "mergeEntries m m = m"
  proof (rule mergeEntries_same)
    fix k v assume "(k, v) \<in> set m"
    then show "lookup m k = Some v" using d by (rule in_set_lookup[rotated])
  next
    fix k vm assume i: "(k, Doc vm) \<in> set m"
    from "3.IH"[OF i] w[OF i] show "mergeMaps vm vm = vm" by simp
  qed
  then show ?case by (simp add: c)
qed simp_all

lemma mergeMaps_idem: "wfDoc a \<Longrightarrow> mergeMaps a a = a"
  using mergeMaps_idem_val[of "Doc a"] by simp

lemma wfDoc_Nil: "wfDoc []"
  by (simp add: wfDoc_iff keys_def)

lemma wfDoc_store: "wfDoc m \<Longrightarrow> wfVal v \<Longrightarrow> wfDoc (store k v m)"
proof -
  assume m: "wfDoc m" and v: "wfVal v"
  have "wfVal (snd p)" if "p \<in> set (store k v m)" for p
  proof -
    from that have "lookup (store k v m) (fst p) = Some (snd p)"
      using distinct_store[OF wfDoc_distinct[OF m], of k v]
      by (intro in_set_lookup) auto
    then show ?thesis using v wfDoc_lookup[OF m, of "fst p" "snd p"]
      by (auto simp: lookup_store split: if_splits)
  qed
  then show ?thesis using distinct_store[OF wfDoc_distinct[OF m], of k v]
    by (simp add: wfDoc_iff)
qed

lemma wfDoc_Cons: "wfDoc ((k, v) # m) \<Longrightarrow> wfVal v \<and> wfDoc m"
  by (auto simp: wfDoc_iff keys_def)

lemma wfDoc_mergeMaps_mergeEntries:
  "(wfDoc a \<longrightarrow> wfDoc b \<longrightarrow> wfDoc (mergeMaps a b))"
  "(wfDoc b' \<longrightarrow> wfDoc out \<longrightarrow> wfDoc (mergeEntries b' out))"
proof (induction a b and b' out rule: mergeMaps_mergeEntries.induct)
  case (1 a b)
  have "wfDoc a \<Longrightarrow> copyEntries a [] = a"
    using copyEntries_id[of "[]" a] by (simp add: wfDoc_distinct)
  with 1 show ?case by auto
next
  case (2 out)
  then show ?case by simp
next
  case (3 k v b out)
  show ?case
  proof (intro impI)
    assume wb: "wfDoc ((k, v) # b)" and wo: "wfDoc out"
    from wb have wv: "wfVal v" and wb': "wfDoc b" using wfDoc_Cons by blast+
    show "wfDoc (mergeEntries ((k, v) # b) out)"
    proof (cases v)
      case (Scalar x)
      with 3(1)[OF Scalar] wb' wo wv show ?thesis by (simp add: wfDoc_store)
    next
      case (Seq xs)
      with 3(2)[OF Seq] wb' wo wv show ?thesis by (simp add: wfDoc_store)
    next
      case (Doc vm)
      show ?thesis
      proof (cases "lookup out k")
        case None
        with 3(3)[OF Doc None] Doc wb' wo wv show ?thesis by (simp add: wfDoc_store)
      next
        case (Some old)
        show ?thesis
        proof (cases old)
          case (Scalar x)
          with 3(4)[OF Doc Some Scalar] Doc Some wb' wo wv show ?thesis by (simp add: wfDoc_store)
        next
          case (Seq xs)
          with 3(5)[OF Doc Some Seq] Doc Some wb' wo wv show ?thesis by (simp add: wfDoc_store)
        next
          case old: (Doc bv)
          from wfDoc_lookup[OF wo Some] old have "wfDoc bv" by simp
          moreover from wv Doc have "wfDoc vm" by simp
          ultimately have "wfDoc (mergeMaps bv vm)" using 3(6)[OF Doc Some old] by simp
          then have "wfDoc (store k (Doc (mergeMaps bv vm)) out)"
            using wo by (simp add: wfDoc_store del: mergeMaps.simps)
          with 3(7)[OF Doc Some old] wb' Doc Some old show ?thesis
            by (simp del: mergeMaps.simps)
        qed
      qed
    qed
  qed
qed

lemma wfDoc_mergeMaps: "wfDoc a \<Longrightarrow> wfDoc b \<Longrightarrow> wfDoc (mergeMaps a b)"
  using wfDoc_mergeMaps_mergeEntries(1) by blast

lemma valEq_DocD: "valEq (Doc a) w \<Longrightarrow> \<exists>b. w = Doc b \<and> docEq a b"
  by (simp add: valEq_Doc_left)

lemma mergeMaps_cong_val:
  "(case v of
      Doc b \<Rightarrow> (\<forall>a a' b'. wfDoc a \<longrightarrow> wfDoc a' \<longrightarrow> wfDoc b \<longrightarrow> wfDoc b' \<longrightarrow> docEq a a' \<longrightarrow> docEq b b'
                \<longrightarrow> docEq (mergeMaps a b) (mergeMaps a' b'))
    | _ \<Rightarrow> True)"
proof (induction v rule: wfVal.induct)
  case (3 b)
  have "docEq (mergeMaps a b) (mergeMaps a' b')"
    if wa: "wfDoc a" and wa': "wfDoc a'" and wb: "wfDoc b" and wb': "wfDoc b'"
      and ea: "docEq a a'" and eb: "docEq b b'" for a a' b'
  proof -
    note da = wfDoc_distinct[OF wa] and da' = wfDoc_distinct[OF wa']
      and db = wfDoc_distinct[OF wb] and db' = wfDoc_distinct[OF wb']
    have ra: "rel_option valEq (lookup a k) (lookup a' k)" for k
      using ea docEq_iff[OF da] by simp
    have rb: "rel_option valEq (lookup b k) (lookup b' k)" for k
      using eb docEq_iff[OF db] by simp
    have "rel_option valEq (lookup (mergeMaps a b) k) (lookup (mergeMaps a' b') k)" for k
    proof (cases "lookup b k")
      case None
      with rb[of k] have "lookup b' k = None" by simp
      with None ra[of k] show ?thesis
        by (simp add: lookup_mergeMaps[OF da db] lookup_mergeMaps[OF da' db'] del: mergeMaps.simps)
    next
      case (Some v)
      with rb[of k] obtain v' where s': "lookup b' k = Some v'" and vv: "valEq v v'"
        by (auto simp: option_rel_Some1)
      have "valEq (mergedValue (lookup a k) v) (mergedValue (lookup a' k) v')"
      proof (cases v)
        case (Scalar x)
        with vv show ?thesis by (simp add: mergedValue_def)
      next
        case (Seq xs)
        with vv show ?thesis by (auto simp: mergedValue_def split: val.splits)
      next
        case (Doc bm)
        with vv obtain bm' where v': "v' = Doc bm'" and ebm: "docEq bm bm'"
          using valEq_DocD by blast
        from wfDoc_lookup[OF wb Some] Doc have wbm: "wfDoc bm" by simp
        from wfDoc_lookup[OF wb' s'] v' have wbm': "wfDoc bm'" by simp
        have inb: "(k, Doc bm) \<in> set b" using Some Doc lookup_in_set by blast
        show ?thesis
        proof (cases "lookup a k")
          case None
          with ra[of k] have "lookup a' k = None" by simp
          with None Doc v' ebm show ?thesis by (simp add: mergedValue_def)
        next
          case sa: (Some x)
          with ra[of k] obtain x' where sa': "lookup a' k = Some x'" and xx: "valEq x x'"
            by (auto simp: option_rel_Some1)
          show ?thesis
          proof (cases x)
            case (Scalar y)
            with xx have "x' = Scalar y" by simp
            with Scalar sa sa' Doc v' ebm show ?thesis by (simp add: mergedValue_def)
          next
            case (Seq ys)
            with xx obtain ys' where "x' = Seq ys'" by (auto split: val.splits)
            with Seq sa sa' Doc v' ebm show ?thesis by (simp add: mergedValue_def)
          next
            case xd: (Doc am)
            with xx obtain am' where x': "x' = Doc am'" and eam: "docEq am am'"
              using valEq_DocD by blast
            from wfDoc_lookup[OF wa sa] xd have wam: "wfDoc am" by simp
            from wfDoc_lookup[OF wa' sa'] x' have wam': "wfDoc am'" by simp
            from "3.IH"[OF inb] wam wam' wbm wbm' eam ebm
            have "docEq (mergeMaps am bm) (mergeMaps am' bm')" by simp
            with xd x' sa sa' Doc v' show ?thesis
              by (simp add: mergedValue_def del: mergeMaps.simps)
          qed
        qed
      qed
      with Some s' show ?thesis
        by (simp add: lookup_mergeMaps[OF da db] lookup_mergeMaps[OF da' db'] del: mergeMaps.simps)
    qed
    then show ?thesis
      using docEq_iff[OF wfDoc_distinct[OF wfDoc_mergeMaps[OF wa wb]]] by blast
  qed
  then show ?case by simp
qed simp_all

lemma mergeMaps_cong:
  assumes "wfDoc a" "wfDoc a'" "wfDoc b" "wfDoc b'" "docEq a a'" "docEq b b'"
  shows "docEq (mergeMaps a b) (mergeMaps a' b')"
  using mergeMaps_cong_val[of "Doc b"] assms by simp

section \<open>Facts about the loops of MergeValues\<close>

lemma forEach_append:
  "forEach body (xs @ ys) base w =
     (case forEach body xs base w of
        (Inl err, w') \<Rightarrow> (Inl err, w')
      | (Inr base', w') \<Rightarrow> forEach body ys base' w')"
  by (induction xs arbitrary: base w) (auto split: prod.splits sum.splits)

lemma forEach_map: "forEach body (map f xs) base w = forEach (\<lambda>x. body (f x)) xs base w"
  by (induction xs arbitrary: base w) (auto split: prod.splits sum.splits)

lemma MergeValues_as_steps:
  "MergeValues lib opts w = finish (forEach (runStep lib) (priorityOrder opts) [] w)"
  unfolding MergeValues_def priorityOrder_def finish_def
  by (simp add: forEach_append forEach_map split: prod.splits sum.splits)

lemmas sample_simps =
  sampleLib_def sampleWorld_def sampleFiles_def sampleUnmarshal_def sampleParseJSON_def
  sampleParseInto_def sampleParseIntoString_def sampleParseIntoFile_def
  sampleParseLiteralInto_def trimASCII_def asciiSpace_def noOptions_def noValue_def
  notAllowed_def

lemmas step_simps =
  valueFile_def jsonValue_def setValue_def stringValue_def fileValue_def literalValue_def
  reader_def readFile_def ReadFile_def ReadAllStdin_def lookup_def store_def

lemma forEach_first_error:
  assumes "forEach body pre base0 w = (Inr base, w1)"
    and "body x base w1 = (Inl err, w2)"
  shows "forEach body (pre @ x # post) base0 w = (Inl err, w2)"
  using assms by (simp add: forEach_append)

lemma forEach_outcome:
  "(\<exists>base w'. forEach body xs base0 w = (Inr base, w'))
   \<or> (\<exists>pre x post base w1 err w2. xs = pre @ x # post
        \<and> forEach body pre base0 w = (Inr base, w1) \<and> body x base w1 = (Inl err, w2)
        \<and> forEach body xs base0 w = (Inl err, w2))"
proof (induction xs arbitrary: base0 w)
  case Nil
  then show ?case by simp
next
  case (Cons x xs)
  obtain r w1 where b: "body x base0 w = (r, w1)" by (cases "body x base0 w")
  show ?case
  proof (cases r)
    case (Inl err)
    have "x # xs = [] @ x # xs \<and> forEach body [] base0 w = (Inr base0, w)
        \<and> body x base0 w = (Inl err, w1) \<and> forEach body (x # xs) base0 w = (Inl err, w1)"
      using b Inl by simp
    then show ?thesis by blast
  next
    case (Inr base1)
    from Cons.IH[of base1 w1] show ?thesis
    proof
      assume "\<exists>base w'. forEach body xs base1 w1 = (Inr base, w')"
      then show ?thesis using b Inr by simp
    next
      assume "\<exists>pre y post base w1' err w2. xs = pre @ y # post
        \<and> forEach body pre base1 w1 = (Inr base, w1') \<and> body y base w1' = (Inl err, w2)
        \<and> forEach body xs base1 w1 = (Inl err, w2)"
      then obtain pre y post base w1' err w2 where
        "xs = pre @ y # post" "forEach body pre base1 w1 = (Inr base, w1')"
        "body y base w1' = (Inl err, w2)" "forEach body xs base1 w1 = (Inl err, w2)"
        by blast
      then have "x # xs = (x # pre) @ y # post
        \<and> forEach body (x # pre) base0 w = (Inr base, w1') \<and> body y base w1' = (Inl err, w2)
        \<and> forEach body (x # xs) base0 w = (Inl err, w2)"
        using b Inr by simp
      then show ?thesis by blast
    qed
  qed
qed

lemma MergeValues_outcome:
  "(\<exists>base w'. MergeValues lib opts w = ((Some base, None), w'))
   \<or> (\<exists>pre s post base w1 err w2. priorityOrder opts = pre @ s # post
        \<and> forEach (runStep lib) pre [] w = (Inr base, w1) \<and> runStep lib s base w1 = (Inl err, w2)
        \<and> MergeValues lib opts w = ((None, Some err), w2))"
proof -
  from forEach_outcome[of "runStep lib" "priorityOrder opts" "[]" w] show ?thesis
  proof
    assume "\<exists>base w'. forEach (runStep lib) (priorityOrder opts) [] w = (Inr base, w')"
    then show ?thesis by (auto simp: MergeValues_as_steps finish_def)
  next
    assume "\<exists>pre x post base w1 err w2. priorityOrder opts = pre @ x # post
        \<and> forEach (runStep lib) pre [] w = (Inr base, w1) \<and> runStep lib x base w1 = (Inl err, w2)
        \<and> forEach (runStep lib) (priorityOrder opts) [] w = (Inl err, w2)"
    then obtain pre x post base w1 err w2 where h: "priorityOrder opts = pre @ x # post"
        "forEach (runStep lib) pre [] w = (Inr base, w1)" "runStep lib x base w1 = (Inl err, w2)"
        "forEach (runStep lib) (priorityOrder opts) [] w = (Inl err, w2)"
      by blast
    from h(4) have "MergeValues lib opts w = ((None, Some err), w2)"
      by (simp add: MergeValues_as_steps finish_def)
    with h(1-3) show ?thesis by blast
  qed
qed

lemma sublist_mid: "sublist xs (ps @ xs @ ss)"
  by (auto simp: sublist_def)

lemma sublist_end: "sublist xs (ps @ xs)"
  using sublist_mid[of xs ps "[]"] by simp

section \<open>The loop bodies against the steps of the specification\<close>

lemma runStep_succeeds:
  "specStep lib s base w = (Inr base', w') \<Longrightarrow> runStep lib s base w = (Inr base', w')"
  by (cases s)
    (auto simp: valueFile_def jsonValue_def setValue_def stringValue_def fileValue_def
      literalValue_def split: prod.splits sum.splits)

lemma runStep_fails:
  "specStep lib s base w = (Inl err, w') \<Longrightarrow>
   \<exists>e. runStep lib s base w = (Inl e, w') \<and> ((\<forall>expr. s \<noteq> JSONValue expr) \<longrightarrow> err \<in> set (chain e))"
proof (cases s)
  case (ValueFile filePath)
  assume a: "specStep lib s base w = (Inl err, w')"
  obtain r w1 where rf: "readFile lib filePath w = (r, w1)" by (cases "readFile lib filePath w")
  show ?thesis
  proof (cases r)
    case (Inl e)
    with a rf ValueFile have "runStep lib s base w = (Inl err, w')" and "err \<in> set (chain err)"
      by (cases err; simp add: valueFile_def)+
    then show ?thesis by blast
  next
    case (Inr bytes)
    with a rf ValueFile have "runStep lib s base w = (Inl (Wrap err (''failed to parse '' @ filePath)), w')"
      by (simp add: valueFile_def split: sum.splits)
    moreover have "err \<in> set (chain (Wrap err (''failed to parse '' @ filePath)))"
      by (cases err) simp_all
    ultimately show ?thesis by blast
  qed
next
  case (JSONValue expr)
  assume "specStep lib s base w = (Inl err, w')"
  with JSONValue show ?thesis by (simp add: jsonValue_def)
next
  case (SetValue expr)
  assume "specStep lib s base w = (Inl err, w')"
  with SetValue have "runStep lib s base w = (Inl (Wrap err ''failed parsing --set data''), w')"
    by (simp add: setValue_def)
  moreover have "err \<in> set (chain (Wrap err ''failed parsing --set data''))"
    by (cases err) simp_all
  ultimately show ?thesis by blast
next
  case (StringValue expr)
  assume "specStep lib s base w = (Inl err, w')"
  with StringValue have "runStep lib s base w = (Inl (Wrap err ''failed parsing --set-string data''), w')"
    by (simp add: stringValue_def)
  moreover have "err \<in> set (chain (Wrap err ''failed parsing --set-string data''))"
    by (cases err) simp_all
  ultimately show ?thesis by blast
next
  case (FileValue expr)
  assume "specStep lib s base w = (Inl err, w')"
  with FileValue have "runStep lib s base w = (Inl (Wrap err ''failed parsing --set-file data''), w')"
    by (simp add: fileValue_def)
  moreover have "err \<in> set (chain (Wrap err ''failed parsing --set-file data''))"
    by (cases err) simp_all
  ultimately show ?thesis by blast
next
  case (LiteralValue expr)
  assume "specStep lib s base w = (Inl err, w')"
  with LiteralValue have "runStep lib s base w = (Inl (Wrap err ''failed parsing --set-literal data''), w')"
    by (simp add: literalValue_def)
  moreover have "err \<in> set (chain (Wrap err ''failed parsing --set-literal data''))"
    by (cases err) simp_all
  ultimately show ?thesis by blast
qed

lemma specPass_append:
  "specPass lib (xs @ ys) acc w =
     (case specPass lib xs acc w of
        (Inl err, w') \<Rightarrow> (Inl err, w')
      | (Inr acc', w') \<Rightarrow> specPass lib ys acc' w')"
  by (induction xs arbitrary: acc w) (auto split: prod.splits sum.splits)

lemma pass_succeeds:
  "specPass lib ss base w = (Inr base', w') \<Longrightarrow> forEach (runStep lib) ss base w = (Inr base', w')"
proof (induction ss arbitrary: base w)
  case Nil
  then show ?case by simp
next
  case (Cons s ss)
  obtain r w1 where st: "specStep lib s base w = (r, w1)" by (cases "specStep lib s base w")
  show ?case
  proof (cases r)
    case (Inl err)
    with Cons.prems st show ?thesis by simp
  next
    case (Inr b1)
    with Cons.prems st have "specPass lib ss b1 w1 = (Inr base', w')" by simp
    from Cons.IH[OF this] runStep_succeeds[of lib s base w b1 w1] st Inr show ?thesis by simp
  qed
qed

lemma pass_fails:
  "specPass lib ss base w = (Inl err, w') \<Longrightarrow> \<exists>e. forEach (runStep lib) ss base w = (Inl e, w')"
proof (induction ss arbitrary: base w)
  case Nil
  then show ?case by simp
next
  case (Cons s ss)
  obtain r w1 where st: "specStep lib s base w = (r, w1)" by (cases "specStep lib s base w")
  show ?case
  proof (cases r)
    case (Inl e0)
    with Cons.prems st have "specStep lib s base w = (Inl err, w')" by simp
    from runStep_fails[OF this] show ?thesis by auto
  next
    case (Inr b1)
    with Cons.prems st have "specPass lib ss b1 w1 = (Inl err, w')" by simp
    from Cons.IH[OF this] runStep_succeeds[of lib s base w b1 w1] st Inr show ?thesis by simp
  qed
qed

lemma MergeValues_first_failure:
  assumes "priorityOrder opts = pre @ s # post"
    and "specPass lib pre [] w = (Inr base, w1)"
    and "runStep lib s base w1 = (Inl e, w2)"
  shows "MergeValues lib opts w = ((None, Some e), w2)"
  using forEach_first_error[OF pass_succeeds[OF assms(2)] assms(3), of post]
  by (simp add: MergeValues_as_steps assms(1) finish_def)

section \<open>Facts about two runs\<close>

lemma docRel_mergeMaps:
  "docRel a a' \<Longrightarrow> docRel b b' \<Longrightarrow> docRel (mergeMaps a b) (mergeMaps a' b')"
  unfolding docRel_def using mergeMaps_cong wfDoc_mergeMaps by blast

lemma docRel_Nil: "docRel [] []"
  by (simp add: docRel_def wfDoc_Nil docEq_refl)

lemma readFile_same: "(\<And>s. TrimSpace lib s = TrimSpace lib' s) \<Longrightarrow> readFile lib = readFile lib'"
  by (intro ext) (simp add: readFile_def)

lemma sameResult_pure:
  "rel_sum (=) docRel r r' \<Longrightarrow>
   sameResult (case r of Inl err \<Rightarrow> (Inl (f err), w) | Inr b \<Rightarrow> (Inr b, w))
              (case r' of Inl err \<Rightarrow> (Inl (f err), w) | Inr b \<Rightarrow> (Inr b, w))"
  by (cases r; cases r') (simp_all add: sameResult_def)

lemma runStep_same:
  assumes L: "sameLibrary lib lib'" and R: "docRel base base'"
  shows "sameResult (runStep lib s base w) (runStep lib' s base' w)"
proof -
  from L have T: "\<And>s. TrimSpace lib s = TrimSpace lib' s" by (simp add: sameLibrary_def)
  show ?thesis
  proof (cases s)
    case (ValueFile filePath)
    obtain r w1 where rf: "readFile lib filePath w = (r, w1)" by (cases "readFile lib filePath w")
    then have rf': "readFile lib' filePath w = (r, w1)" using readFile_same[OF T] by simp
    show ?thesis
    proof (cases r)
      case (Inl err)
      with rf rf' ValueFile show ?thesis by (simp add: valueFile_def sameResult_def)
    next
      case (Inr bytes)
      from L have u: "rel_sum (=) docRel (Unmarshal lib bytes) (Unmarshal lib' bytes)"
        by (simp add: sameLibrary_def)
      show ?thesis
      proof (cases "Unmarshal lib bytes")
        case ul: (Inl err)
        with u have "Unmarshal lib' bytes = Inl err" by (cases "Unmarshal lib' bytes") simp_all
        with ul rf rf' Inr ValueFile show ?thesis by (simp add: valueFile_def sameResult_def)
      next
        case ur: (Inr m)
        with u obtain m' where ur': "Unmarshal lib' bytes = Inr m'" and mm: "docRel m m'"
          by (cases "Unmarshal lib' bytes") simp_all
        from docRel_mergeMaps[OF R mm] ur ur' rf rf' Inr ValueFile show ?thesis
          by (simp add: valueFile_def sameResult_def del: mergeMaps.simps)
      qed
    qed
  next
    case (JSONValue v)
    from L R have "rel_sum (=) docRel (ParseJSON lib v base) (ParseJSON lib' v base')"
      by (simp add: sameLibrary_def)
    then show ?thesis
      unfolding JSONValue runStep.simps jsonValue_def
      by (cases "ParseJSON lib v base"; cases "ParseJSON lib' v base'") (simp_all add: sameResult_def)
  next
    case (SetValue v)
    from L R have "rel_sum (=) docRel (ParseInto lib v base) (ParseInto lib' v base')"
      by (simp add: sameLibrary_def)
    then show ?thesis
      unfolding SetValue runStep.simps setValue_def
      by (cases "ParseInto lib v base"; cases "ParseInto lib' v base'") (simp_all add: sameResult_def)
  next
    case (StringValue v)
    from L R have "rel_sum (=) docRel (ParseIntoString lib v base) (ParseIntoString lib' v base')"
      by (simp add: sameLibrary_def)
    then show ?thesis
      unfolding StringValue runStep.simps stringValue_def
      by (cases "ParseIntoString lib v base"; cases "ParseIntoString lib' v base'")
        (simp_all add: sameResult_def)
  next
    case (FileValue v)
    from L R have "sameResult (ParseIntoFile lib v base (reader lib) w)
        (ParseIntoFile lib' v base' (reader lib') w)"
      by (simp add: sameLibrary_def)
    then show ?thesis
      unfolding FileValue runStep.simps fileValue_def
      by (cases "ParseIntoFile lib v base (reader lib) w";
          cases "ParseIntoFile lib' v base' (reader lib') w";
          cases "fst (ParseIntoFile lib v base (reader lib) w)";
          cases "fst (ParseIntoFile lib' v base' (reader lib') w)")
        (simp_all add: sameResult_def)
  next
    case (LiteralValue v)
    from L R have "rel_sum (=) docRel (ParseLiteralInto lib v base) (ParseLiteralInto lib' v base')"
      by (simp add: sameLibrary_def)
    then show ?thesis
      unfolding LiteralValue runStep.simps literalValue_def
      by (cases "ParseLiteralInto lib v base"; cases "ParseLiteralInto lib' v base'")
        (simp_all add: sameResult_def)
  qed
qed

lemma forEach_same:
  assumes L: "sameLibrary lib lib'"
  shows "docRel base base' \<Longrightarrow>
    sameResult (forEach (runStep lib) xs base w) (forEach (runStep lib') xs base' w)"
proof (induction xs arbitrary: base base' w)
  case Nil
  then show ?case by (simp add: sameResult_def)
next
  case (Cons s xs)
  from runStep_same[OF L Cons.prems, of s w]
  have sr: "sameResult (runStep lib s base w) (runStep lib' s base' w)" .
  obtain r w1 where a: "runStep lib s base w = (r, w1)" by (cases "runStep lib s base w")
  obtain r' w1' where b: "runStep lib' s base' w = (r', w1')" by (cases "runStep lib' s base' w")
  from sr a b have ww: "w1' = w1" and rr: "rel_sum (=) docRel r r'" by (simp_all add: sameResult_def)
  show ?case
  proof (cases r)
    case (Inl err)
    with rr have "r' = Inl err" by (cases r') simp_all
    with Inl a b ww show ?thesis by (simp add: sameResult_def)
  next
    case (Inr b1)
    with rr obtain b1' where r': "r' = Inr b1'" and bb: "docRel b1 b1'" by (cases r') simp_all
    from Cons.IH[OF bb, of w1] Inr r' a b ww show ?thesis by simp
  qed
qed

lemma docRel_store:
  assumes "docRel b b'" and "wfVal v" and "valEq v v"
  shows "docRel (store k v b) (store k v b')"
proof -
  from assms(1) have w: "wfDoc b" and w': "wfDoc b'" and e: "docEq b b'"
    by (simp_all add: docRel_def)
  have r: "rel_option valEq (lookup b k') (lookup b' k')" for k'
    using e docEq_iff[OF wfDoc_distinct[OF w]] by simp
  have "rel_option valEq (lookup (store k v b) k') (lookup (store k v b') k')" for k'
    using r[of k'] assms(3) by (simp add: lookup_store)
  then have "docEq (store k v b) (store k v b')"
    using docEq_iff[OF wfDoc_distinct[OF wfDoc_store[OF w assms(2)]]] by blast
  then show ?thesis
    using wfDoc_store[OF w assms(2)] wfDoc_store[OF w' assms(2)] by (simp add: docRel_def)
qed

lemma sameLibrary_sample: "sameLibrary sampleLib permutedLib"
proof -
  have u: "rel_sum (=) docRel (sampleUnmarshal bytes) (map_sum id rev (sampleUnmarshal bytes))"
    for bytes
    by (simp add: sampleUnmarshal_def docRel_def wfDoc_iff keys_def docEq_alt lookup_def)
  have j: "rel_sum (=) docRel (sampleParseJSON v b) (sampleParseJSON v b')" if "docRel b b'" for v b b'
    using that by (simp add: sampleParseJSON_def docRel_store list_all2_same)
  have p: "rel_sum (=) docRel (sampleParseInto v b) (sampleParseInto v b')" if "docRel b b'" for v b b'
    using that by (simp add: sampleParseInto_def docRel_store)
  have s: "rel_sum (=) docRel (sampleParseIntoString v b) (sampleParseIntoString v b')"
    if "docRel b b'" for v b b'
    using that by (simp add: sampleParseIntoString_def docRel_store)
  have l: "rel_sum (=) docRel (sampleParseLiteralInto v b) (sampleParseLiteralInto v b')"
    if "docRel b b'" for v b b'
    using that by (simp add: sampleParseLiteralInto_def docRel_store)
  have rd: "reader permutedLib = reader sampleLib"
    by (intro ext) (simp add: reader_def readFile_def permutedLib_def sampleLib_def)
  have f: "sameResult (sampleParseIntoFile v b (reader sampleLib) w)
      (sampleParseIntoFile v b' (reader sampleLib) w)" if "docRel b b'" for v b b' w
    using that
    by (auto simp: sampleParseIntoFile_def sameResult_def reader_def docRel_store
        split: prod.splits sum.splits)
  show ?thesis
    unfolding sameLibrary_def rd
    using u j p s l f by (simp add: permutedLib_def sampleLib_def)
qed

section \<open>Facts about the heap\<close>

lemma extends_iff: "extends g h \<longleftrightarrow> length g \<le> length h \<and> (\<forall>p<length g. h ! p = g ! p)"
  by (auto simp: extends_def list_eq_iff_nth_eq)

lemma extends_refl: "extends h h"
  by (simp add: extends_def)

lemma extends_trans: "extends g h \<Longrightarrow> extends h h' \<Longrightarrow> extends g h'"
  by (auto simp: extends_iff)

lemma extends_alloc: "extends h (h @ [[]])"
  by (simp add: extends_def)

lemma hstore_length [simp]: "length (hstore p k v h) = length h"
  by (simp add: hstore_def)

lemma hstore_other: "p' \<noteq> p \<Longrightarrow> hstore p k v h ! p' = h ! p'"
  by (simp add: hstore_def)

lemma hstore_same: "p < length h \<Longrightarrow> hstore p k v h ! p = AList.update k v (h ! p)"
  by (simp add: hstore_def)

lemma extends_hstore: "extends g h \<Longrightarrow> length g \<le> p \<Longrightarrow> extends g (hstore p k v h)"
  by (auto simp: extends_iff hstore_other)

lemma hkeys_hstore: "p < length h \<Longrightarrow> hkeys (hstore p k v h) p = insert k (hkeys h p)"
  by (simp add: hkeys_def hstore_same dom_update)

lemma in_set_update: "x \<in> set (AList.update k v m) \<Longrightarrow> x = (k, v) \<or> x \<in> set m"
  by (induction m) (auto split: if_splits)

lemma closed_iff:
  "closed h \<longleftrightarrow> (\<forall>p k v. p < length h \<longrightarrow> (k, v) \<in> set (h ! p) \<longrightarrow> validVal h v)"
proof
  assume c: "closed h"
  show "\<forall>p k v. p < length h \<longrightarrow> (k, v) \<in> set (h ! p) \<longrightarrow> validVal h v"
  proof (intro allI impI)
    fix p k v assume "p < length h" "(k, v) \<in> set (h ! p)"
    then have "h ! p \<in> set h" by simp
    with c have "\<forall>kv\<in>set (h ! p). validVal h (snd kv)" by (simp add: closed_def list_all_iff)
    with \<open>(k, v) \<in> set (h ! p)\<close> show "validVal h v" by force
  qed
next
  assume r: "\<forall>p k v. p < length h \<longrightarrow> (k, v) \<in> set (h ! p) \<longrightarrow> validVal h v"
  have "validVal h (snd kv)" if "m \<in> set h" "kv \<in> set m" for m kv
  proof -
    from that(1) obtain p where "p < length h" "h ! p = m" by (auto simp: in_set_conv_nth)
    with r that(2) show ?thesis by (cases kv) auto
  qed
  then show "closed h" by (simp add: closed_def list_all_iff)
qed

lemma validVal_length: "length h = length h' \<Longrightarrow> validVal h v = validVal h' v"
  by (cases v) simp_all

lemma validVal_mono: "length h \<le> length h' \<Longrightarrow> validVal h v \<Longrightarrow> validVal h' v"
  by (cases v) simp_all

lemma closed_hstore:
  assumes "closed h" and "validVal h v"
  shows "closed (hstore p k v h)"
  unfolding closed_iff
proof (intro allI impI)
  fix q k' v'
  assume q: "q < length (hstore p k v h)" and kv: "(k', v') \<in> set (hstore p k v h ! q)"
  have "validVal h v'"
  proof (cases "q = p")
    case True
    with q kv have "(k', v') \<in> set (AList.update k v (h ! p))" by (simp add: hstore_same)
    then have "(k', v') = (k, v) \<or> (k', v') \<in> set (h ! p)" by (rule in_set_update)
    with assms True q show ?thesis by (auto simp: closed_iff)
  next
    case False
    with q kv assms(1) show ?thesis by (auto simp: closed_iff hstore_other)
  qed
  then show "validVal (hstore p k v h) v'"
    using validVal_length[of "hstore p k v h" h] by simp
qed

lemma closed_alloc:
  assumes "closed h"
  shows "closed (h @ [[]])"
  unfolding closed_iff
proof (intro allI impI)
  fix p k v
  assume p: "p < length (h @ [[]])" and kv: "(k, v) \<in> set ((h @ [[]]) ! p)"
  from kv have "p \<noteq> length h" by (auto simp: nth_append)
  with p have pl: "p < length h" by simp
  with kv have "(k, v) \<in> set (h ! p)" by (simp add: nth_append)
  with assms pl have "validVal h v" by (auto simp: closed_iff)
  then show "validVal (h @ [[]]) v" by (rule validVal_mono[rotated]) simp
qed

lemma closed_lookup: "closed h \<Longrightarrow> p < length h \<Longrightarrow> hlookup h p k = Some v \<Longrightarrow> validVal h v"
  unfolding closed_iff hlookup_def using map_of_SomeD by fast

lemma hcopyEntries_ok:
  "closed h \<Longrightarrow> out < length h \<Longrightarrow> (\<And>k v. (k, v) \<in> set a \<Longrightarrow> validVal h v) \<Longrightarrow>
   closed (hcopyEntries a out h) \<and> length (hcopyEntries a out h) = length h
   \<and> (\<forall>p. p \<noteq> out \<longrightarrow> hcopyEntries a out h ! p = h ! p)
   \<and> hkeys (hcopyEntries a out h) out = hkeys h out \<union> set (map fst a)"
proof (induction a arbitrary: h)
  case Nil
  then show ?case by simp
next
  case (Cons kv a)
  obtain k v where kv: "kv = (k, v)" by (cases kv)
  let ?h = "hstore out k v h"
  from Cons.prems(1) Cons.prems(3)[of k v] kv have c: "closed ?h" by (simp add: closed_hstore)
  have l: "out < length ?h" using Cons.prems by simp
  have v: "validVal ?h v'" if "(k', v') \<in> set a" for k' v'
    using Cons.prems(3)[of k' v'] that validVal_length[of ?h h] by simp
  from Cons.IH[OF c l v] show ?case
    using kv Cons.prems(2) by (auto simp: hstore_other hkeys_hstore)
qed

lemma nested_extends:
  "extends g h \<Longrightarrow> nested n g q \<Longrightarrow> nested n h q"
  "extends g h \<Longrightarrow> nestedVal n g v \<Longrightarrow> nestedVal n h v"
proof (induction n g q and n g v rule: nested_nestedVal.induct)
  case (2 n g p)
  from "2.prems" have e: "h ! p = g ! p" and l: "p < length h"
    by (auto simp: extends_iff)
  from "2.prems"(2) have "\<forall>kv\<in>set (g ! p). nestedVal n g (snd kv)"
    by (simp add: list_all_iff)
  then have "\<forall>kv\<in>set (g ! p). nestedVal n h (snd kv)"
    using "2.IH" "2.prems"(1) by blast
  with l e show ?case by (simp add: list_all_iff)
qed simp_all

lemma nested_Suc:
  "nested n h q \<Longrightarrow> nested (Suc n) h q"
  "nestedVal n h v \<Longrightarrow> nestedVal (Suc n) h v"
proof (induction n h q and n h v rule: nested_nestedVal.induct)
  case (2 n h p)
  from "2.prems" have "\<forall>kv\<in>set (h ! p). nestedVal n h (snd kv)" and l: "p < length h"
    by (simp_all add: list_all_iff)
  then have "\<forall>kv\<in>set (h ! p). nestedVal (Suc n) h (snd kv)"
    using "2.IH" by blast
  with l show ?case unfolding nested.simps(2)[of "Suc n"] by (simp add: list_all_iff)
qed simp_all

lemma nested_mono: "n \<le> m \<Longrightarrow> nested n h q \<Longrightarrow> nested m h q"
proof (induction m)
  case 0
  then show ?case by simp
next
  case (Suc m)
  show ?case
  proof (cases "n = Suc m")
    case True
    with Suc.prems show ?thesis by simp
  next
    case False
    with Suc.prems have "n \<le> m" by simp
    from Suc.IH[OF this Suc.prems(2)] show ?thesis by (rule nested_Suc(1))
  qed
qed

lemma nested_valid: "nested n h q \<Longrightarrow> q < length h"
  by (cases n) simp_all

lemma nestedVal_valid: "nestedVal n h v \<Longrightarrow> validVal h v"
  by (cases v) (simp_all add: nested_valid)

lemma hmergeEntries_ok:
  assumes P: "\<forall>a b h. closed h \<longrightarrow> a < length h \<longrightarrow> nested n h b \<longrightarrow>
      (\<exists>h'. hmergeMaps n a b h = Some (length h, h') \<and> length h < length h'
        \<and> extends h h' \<and> closed h' \<and> hkeys h' (length h) = hkeys h a \<union> hkeys h b)"
  shows "closed h \<Longrightarrow> extends g h \<Longrightarrow> length g \<le> out \<Longrightarrow> out < length h \<Longrightarrow>
    \<forall>kv\<in>set bs. nestedVal n g (snd kv) \<Longrightarrow>
    \<exists>h'. hmergeEntries n bs out h = Some h' \<and> length h \<le> length h' \<and> extends g h'
      \<and> closed h' \<and> hkeys h' out = hkeys h out \<union> set (map fst bs)"
proof (induction bs arbitrary: h)
  case Nil
  then show ?case by simp
next
  case (Cons kv bs)
  obtain k v where kv: "kv = (k, v)" by (cases kv)
  have nv: "nestedVal n g v" using Cons.prems(5) kv by simp
  have rest: "\<forall>kv\<in>set bs. nestedVal n g (snd kv)"
    using Cons.prems(5) by simp
  have vv: "validVal h v"
    using nestedVal_valid[OF nested_extends(2)[OF Cons.prems(2) nv]] .
  have plain: ?case if eq: "hmergeEntries n (kv # bs) out h = hmergeEntries n bs out (hstore out k v h)"
  proof -
    let ?h = "hstore out k v h"
    have c: "closed ?h" using Cons.prems(1) vv by (rule closed_hstore)
    have e: "extends g ?h" using Cons.prems(2,3) by (rule extends_hstore)
    have l: "out < length ?h" using Cons.prems(4) by simp
    from Cons.IH[OF c e Cons.prems(3) l rest] obtain h' where
      h': "hmergeEntries n bs out ?h = Some h'" "length ?h \<le> length h'" "extends g h'"
        "closed h'" "hkeys h' out = hkeys ?h out \<union> set (map fst bs)"
      by blast
    then show ?thesis
      using eq kv Cons.prems(4) by (auto simp: hkeys_hstore)
  qed
  show ?case
  proof (cases v)
    case (HScalar x)
    then show ?thesis using kv by (intro plain) simp
  next
    case (HSeq xs)
    then show ?thesis using kv by (intro plain) simp
  next
    case (HMap vp)
    show ?thesis
    proof (cases "hlookup h out k")
      case None
      with HMap show ?thesis using kv by (intro plain) simp
    next
      case (Some old)
      show ?thesis
      proof (cases old)
        case (HScalar x)
        with HMap Some show ?thesis using kv by (intro plain) simp
      next
        case (HSeq xs)
        with HMap Some show ?thesis using kv by (intro plain) simp
      next
        case old: (HMap bvp)
        have bv: "bvp < length h"
          using closed_lookup[OF Cons.prems(1,4) Some] old by simp
        have nvp: "nested n h vp"
          using nested_extends(2)[OF Cons.prems(2) nv] HMap by simp
        from P Cons.prems(1) bv nvp obtain h1 where
          h1: "hmergeMaps n bvp vp h = Some (length h, h1)" "length h < length h1"
            "extends h h1" "closed h1"
          by blast
        let ?h = "hstore out k (HMap (length h)) h1"
        have c: "closed ?h" using h1(4) h1(2) by (intro closed_hstore) simp_all
        have e: "extends g ?h"
          using extends_trans[OF Cons.prems(2) h1(3)] Cons.prems(3) by (rule extends_hstore)
        have l: "out < length ?h" using Cons.prems(4) h1(2) by simp
        from Cons.IH[OF c e Cons.prems(3) l rest] obtain h' where
          h': "hmergeEntries n bs out ?h = Some h'" "length ?h \<le> length h'" "extends g h'"
            "closed h'" "hkeys h' out = hkeys ?h out \<union> set (map fst bs)"
          by blast
        have same: "h1 ! out = h ! out"
          using h1(3) Cons.prems(4) by (simp add: extends_iff)
        have k1: "hkeys ?h out = insert k (hkeys h out)"
          using Cons.prems(4) h1(2) same by (simp add: hkeys_hstore) (simp add: hkeys_def)
        have "hmergeEntries n (kv # bs) out h = hmergeEntries n bs out ?h"
          using kv HMap Some old h1(1) by simp
        with h' k1 h1(2) kv show ?thesis by auto
      qed
    qed
  qed
qed

lemma hmergeMaps_ok:
  "closed h \<Longrightarrow> a < length h \<Longrightarrow> nested n h b \<Longrightarrow>
   \<exists>h'. hmergeMaps n a b h = Some (length h, h') \<and> length h < length h'
     \<and> extends h h' \<and> closed h' \<and> hkeys h' (length h) = hkeys h a \<union> hkeys h b"
proof (induction n arbitrary: a b h)
  case 0
  then show ?case by simp
next
  case (Suc n)
  from Suc.prems(3) have b: "b < length h"
    and nb: "\<forall>kv\<in>set (h ! b). nestedVal n h (snd kv)"
    by (auto simp: list_all_iff)
  have P: "\<forall>a b h. closed h \<longrightarrow> a < length h \<longrightarrow> nested n h b \<longrightarrow>
      (\<exists>h'. hmergeMaps n a b h = Some (length h, h') \<and> length h < length h'
        \<and> extends h h' \<and> closed h' \<and> hkeys h' (length h) = hkeys h a \<union> hkeys h b)"
    using Suc.IH by blast
  let ?out = "length h"
  let ?h1 = "h @ [[]]"
  let ?h2 = "hcopyEntries (h ! a) ?out ?h1"
  have c1: "closed ?h1" using Suc.prems(1) by (rule closed_alloc)
  have va: "validVal ?h1 v" if "(k, v) \<in> set (h ! a)" for k v
  proof -
    from Suc.prems(1,2) that have "validVal h v" by (auto simp: closed_iff)
    then show ?thesis by (rule validVal_mono[rotated]) simp
  qed
  from hcopyEntries_ok[OF c1, of ?out "h ! a"] va
  have c2: "closed ?h2" and l2: "length ?h2 = Suc (length h)"
    and o2: "\<forall>p. p \<noteq> ?out \<longrightarrow> ?h2 ! p = ?h1 ! p"
    and k2: "hkeys ?h2 ?out = hkeys ?h1 ?out \<union> set (map fst (h ! a))"
    by auto
  have e2: "extends h ?h2"
    using l2 o2 by (auto simp: extends_iff nth_append)
  have le: "length h \<le> ?out" by simp
  have lt: "?out < length ?h2" using l2 by simp
  from hmergeEntries_ok[OF P c2 e2 le lt nb]
  obtain h' where h': "hmergeEntries n (h ! b) ?out ?h2 = Some h'" "length ?h2 \<le> length h'"
      "extends h h'" "closed h'" "hkeys h' ?out = hkeys ?h2 ?out \<union> set (map fst (h ! b))"
    by blast
  have "hmergeMaps (Suc n) a b h = Some (?out, h')"
    using Suc.prems(2) b h'(1) by simp
  moreover have "hkeys h' ?out = hkeys h a \<union> hkeys h b"
    using h'(5) k2 by (simp add: hkeys_def)
  ultimately show ?case using h'(2-4) l2 by auto
qed

section \<open>The heap version computes the merge of the documents\<close>

lemma tree_weaken:
  "\<forall>q. A q \<longrightarrow> B q \<Longrightarrow> tree A n h p \<Longrightarrow> tree B n h p"
  "\<forall>q. A q \<longrightarrow> B q \<Longrightarrow> treeVal A n h v \<Longrightarrow> treeVal B n h v"
proof (induction A n h p and A n h v rule: tree_treeVal.induct)
  case (2 A n h p)
  from "2.prems"(2) have "\<forall>kv\<in>set (h ! p). treeVal A n h (snd kv)" by (simp add: list_all_iff)
  then have "\<forall>kv\<in>set (h ! p). treeVal B n h (snd kv)" using "2.IH" "2.prems"(1) by blast
  with "2.prems" show ?case by (simp add: list_all_iff)
next
  case (4 A n h xs)
  then show ?case by (auto simp: list_all_iff)
qed simp_all

lemma tree_stable:
  "\<forall>q. A q \<longrightarrow> q < length h \<longrightarrow> h' ! q = h ! q \<Longrightarrow> length h \<le> length h' \<Longrightarrow> tree A n h p \<Longrightarrow>
     tree A n h' p \<and> docOf n h' p = docOf n h p"
  "\<forall>q. A q \<longrightarrow> q < length h \<longrightarrow> h' ! q = h ! q \<Longrightarrow> length h \<le> length h' \<Longrightarrow> treeVal A n h v \<Longrightarrow>
     treeVal A n h' v \<and> valOf n h' v = valOf n h v"
proof (induction A n h p and A n h v rule: tree_treeVal.induct)
  case (2 A n h p)
  from "2.prems"(3) have a: "A p" and l: "p < length h"
    and t: "\<forall>kv\<in>set (h ! p). treeVal A n h (snd kv)"
    by (simp_all add: list_all_iff)
  from a l "2.prems"(1) have e: "h' ! p = h ! p" by simp
  have "\<forall>kv\<in>set (h ! p). treeVal A n h' (snd kv) \<and> valOf n h' (snd kv) = valOf n h (snd kv)"
    using "2.IH" "2.prems"(1,2) t by blast
  with a l e "2.prems"(2) show ?case by (simp add: list_all_iff)
next
  case (4 A n h xs)
  then show ?case by (auto simp: list_all_iff)
qed simp_all

lemma tree_Suc:
  "tree A n h p \<Longrightarrow> tree A (Suc n) h p \<and> docOf (Suc n) h p = docOf n h p"
  "treeVal A n h v \<Longrightarrow> treeVal A (Suc n) h v \<and> valOf (Suc n) h v = valOf n h v"
proof (induction A n h p and A n h v rule: tree_treeVal.induct)
  case (2 A n h p)
  from "2.prems" have a: "A p" and l: "p < length h"
    and t: "\<forall>kv\<in>set (h ! p). treeVal A n h (snd kv)"
    by (simp_all add: list_all_iff)
  have s: "\<forall>kv\<in>set (h ! p). treeVal A (Suc n) h (snd kv) \<and> valOf (Suc n) h (snd kv) = valOf n h (snd kv)"
    using "2.IH" t by blast
  have "tree A (Suc (Suc n)) h p"
    unfolding tree.simps(2)[of A "Suc n"] using a l s by (simp add: list_all_iff)
  moreover have "docOf (Suc (Suc n)) h p = docOf (Suc n) h p"
    unfolding docOf.simps(2) using s by simp
  ultimately show ?case by blast
next
  case (4 A n h xs)
  then show ?case by (auto simp: list_all_iff)
qed simp_all

lemma tree_nested:
  "tree A n h p \<Longrightarrow> nested n h p"
  "treeVal A n h v \<Longrightarrow> nestedVal n h v"
proof (induction A n h p and A n h v rule: tree_treeVal.induct)
  case (2 A n h p)
  then show ?case by (auto simp: list_all_iff)
qed simp_all

lemma tree_allowed: "tree A n h p \<Longrightarrow> A p \<and> p < length h"
  by (cases n) simp_all

lemma absE_pair [simp]: "absE n h (k, v) = (k, valOf n h v)"
  by (simp add: absE_def)

lemma docOf_Suc: "docOf (Suc n) h p = map (absE n h) (h ! p)"
  by (simp add: absE_def)

lemma map_absE_update:
  "map (absE n h) (AList.update k v m) = store k (valOf n h v) (map (absE n h) m)"
  by (induction m) (auto simp: store_def)

lemma lookup_map_absE: "lookup (map (absE n h) m) k = map_option (valOf n h) (map_of m k)"
  by (induction m) (auto simp: lookup_def)

lemma map_absE_cong:
  "\<forall>kv\<in>set m. valOf n h' (snd kv) = valOf n h (snd kv) \<Longrightarrow> map (absE n h') m = map (absE n h) m"
  by (simp add: absE_def)

lemma hcopyEntries_cell:
  "out < length h \<Longrightarrow>
   map (absE n h') (hcopyEntries a out h ! out)
     = copyEntries (map (absE n h') a) (map (absE n h') (h ! out))"
proof (induction a arbitrary: h)
  case Nil
  then show ?case by simp
next
  case (Cons kv a)
  obtain k v where kv: "kv = (k, v)" by (cases kv)
  have "out < length (hstore out k v h)" using Cons.prems by simp
  from Cons.IH[OF this] show ?case
    using Cons.prems kv by (simp add: hstore_same map_absE_update)
qed

lemma hcopyEntries_set:
  "out < length h \<Longrightarrow> kv \<in> set (hcopyEntries a out h ! out) \<Longrightarrow> kv \<in> set a \<or> kv \<in> set (h ! out)"
proof (induction a arbitrary: h)
  case Nil
  then show ?case by simp
next
  case (Cons x a)
  obtain k v where x: "x = (k, v)" by (cases x)
  have l: "out < length (hstore out k v h)" using Cons.prems by simp
  from Cons.IH[OF l] Cons.prems(2) x
  have "kv \<in> set a \<or> kv \<in> set (hstore out k v h ! out)" by simp
  then show ?case
    using x Cons.prems(1) in_set_update[of kv k v "h ! out"] by (auto simp: hstore_same)
qed

lemma tree_restrict:
  "tree A n h p \<Longrightarrow> tree (\<lambda>q. A q \<and> q < length h) n h p"
  "treeVal A n h v \<Longrightarrow> treeVal (\<lambda>q. A q \<and> q < length h) n h v"
proof (induction A n h p and A n h v rule: tree_treeVal.induct)
  case (2 A n h p)
  then show ?case by (auto simp: list_all_iff)
next
  case (4 A n h xs)
  then show ?case by (auto simp: list_all_iff)
qed simp_all

lemma hmergeMaps_result:
  assumes "closed h" and "a < length h" and "nested n h b" and "hmergeMaps n a b h = Some (out, h')"
  shows "out = length h \<and> length h < length h' \<and> extends h h' \<and> closed h'"
  using hmergeMaps_ok[OF assms(1-3)] assms(4) by auto

lemma out_store_step:
  assumes D1: "\<forall>q. D q \<longrightarrow> q \<noteq> out" and l: "out < length h"
    and cell: "\<forall>kv\<in>set (h ! out). treeVal D n h (snd kv)"
    and w: "treeVal D n h w"
  shows "(\<forall>kv\<in>set (hstore out k w h ! out). treeVal D n (hstore out k w h) (snd kv))
    \<and> map (absE n (hstore out k w h)) (hstore out k w h ! out)
        = store k (valOf n h w) (map (absE n h) (h ! out))"
proof -
  let ?h = "hstore out k w h"
  have fr: "\<forall>q. D q \<longrightarrow> q < length h \<longrightarrow> ?h ! q = h ! q"
    using D1 by (simp add: hstore_other)
  have st: "treeVal D n ?h u \<and> valOf n ?h u = valOf n h u" if "treeVal D n h u" for u
    using tree_stable(2)[OF fr _ that] by simp
  have c: "?h ! out = AList.update k w (h ! out)" using l by (simp add: hstore_same)
  have "treeVal D n ?h (snd kv)" if "kv \<in> set (?h ! out)" for kv
  proof -
    from that c have "kv = (k, w) \<or> kv \<in> set (h ! out)" using in_set_update by metis
    then show ?thesis using st[OF w] st cell by auto
  qed
  moreover have "map (absE n ?h) (?h ! out) = store k (valOf n h w) (map (absE n h) (h ! out))"
  proof -
    have m: "map (absE n ?h) (h ! out) = map (absE n h) (h ! out)"
      using st cell by (intro map_absE_cong) simp
    have "valOf n ?h w = valOf n h w" using st[OF w] by simp
    then show ?thesis unfolding c map_absE_update m by simp
  qed
  ultimately show ?thesis by blast
qed

lemma mergedValue_plain:
  "(\<forall>vm. v \<noteq> Doc vm) \<or> (\<forall>bv. old \<noteq> Some (Doc bv)) \<Longrightarrow> mergedValue old v = v"
  by (auto simp: mergedValue_def split: val.splits option.splits)

lemma valOf_Doc_iff: "(\<exists>d. valOf n h v = Doc d) \<longleftrightarrow> (\<exists>p. v = HMap p)"
  by (cases v) simp_all

lemma hmergeEntries_abs:
  assumes P: "\<forall>A a b h out h'. closed h \<longrightarrow> tree A n h a \<longrightarrow> tree A n h b
        \<longrightarrow> hmergeMaps n a b h = Some (out, h')
        \<longrightarrow> tree (\<lambda>q. A q \<or> length h \<le> q) n h' out
            \<and> docOf n h' out = mergeMaps (docOf n h a) (docOf n h b)"
    and D1: "\<forall>q. D q \<longrightarrow> q \<noteq> out" and D2: "\<forall>q. out < q \<longrightarrow> D q"
  shows "closed h \<Longrightarrow> extends g h \<Longrightarrow> length g \<le> out \<Longrightarrow> out < length h \<Longrightarrow>
     \<forall>kv\<in>set bs. treeVal (\<lambda>q. D q \<and> q < length g) n g (snd kv) \<Longrightarrow>
     \<forall>kv\<in>set (h ! out). treeVal D n h (snd kv) \<Longrightarrow>
     hmergeEntries n bs out h = Some h' \<Longrightarrow>
     (\<forall>kv\<in>set (h' ! out). treeVal D n h' (snd kv))
     \<and> map (absE n h') (h' ! out) = mergeEntries (map (absE n g) bs) (map (absE n h) (h ! out))"
proof (induction bs arbitrary: h)
  case Nil
  then show ?case by simp
next
  case (Cons kv bs)
  obtain k v where kv: "kv = (k, v)" by (cases kv)
  let ?ao = "map (absE n h) (h ! out)"
  note c = Cons.prems(1) and e = Cons.prems(2) and lg = Cons.prems(3) and lo = Cons.prems(4)
    and cell = Cons.prems(6) and run = Cons.prems(7)
  have tv: "treeVal (\<lambda>q. D q \<and> q < length g) n g v" using Cons.prems(5) kv by simp
  have rest: "\<forall>kv\<in>set bs. treeVal (\<lambda>q. D q \<and> q < length g) n g (snd kv)"
    using Cons.prems(5) by simp
  have fg: "\<forall>q. (D q \<and> q < length g) \<longrightarrow> q < length g \<longrightarrow> h ! q = g ! q"
    using e by (simp add: extends_iff)
  have lgh: "length g \<le> length h" using e by (simp add: extends_iff)
  from tree_stable(2)[OF fg lgh tv]
  have tvh: "treeVal (\<lambda>q. D q \<and> q < length g) n h v" and veq: "valOf n h v = valOf n g v"
    by simp_all
  have tD: "treeVal D n h v" using tree_weaken(2)[OF _ tvh, of D] by simp
  have vv: "validVal h v" using nestedVal_valid[OF tree_nested(2)[OF tD]] .
  have look: "lookup ?ao k = map_option (valOf n h) (hlookup h out k)"
    by (simp add: lookup_map_absE hlookup_def)
  have pure: "mergeEntries (map (absE n g) (kv # bs)) ?ao
      = mergeEntries (map (absE n g) bs) (store k (mergedValue (lookup ?ao k) (valOf n g v)) ?ao)"
    using kv by (simp add: mergeEntries_step del: mergeEntries.simps)
  have plain: ?case
    if eq: "hmergeEntries n (kv # bs) out h = hmergeEntries n bs out (hstore out k v h)"
      and mv: "mergedValue (lookup ?ao k) (valOf n g v) = valOf n g v"
  proof -
    let ?h = "hstore out k v h"
    from out_store_step[OF D1 lo cell tD, of k]
    have cell1: "\<forall>kv\<in>set (?h ! out). treeVal D n ?h (snd kv)"
      and abs1: "map (absE n ?h) (?h ! out) = store k (valOf n h v) ?ao"
      by simp_all
    have c1: "closed ?h" using c vv by (rule closed_hstore)
    have e1: "extends g ?h" using e lg by (rule extends_hstore)
    have l1: "out < length ?h" using lo by simp
    have r1: "hmergeEntries n bs out ?h = Some h'" using run eq by simp
    from Cons.IH[OF c1 e1 lg l1 rest cell1 r1] show ?thesis
      using abs1 veq pure mv by (simp del: mergeEntries.simps)
  qed
  show ?case
  proof (cases v)
    case (HScalar x)
    then show ?thesis using kv by (intro plain) (simp_all add: mergedValue_def)
  next
    case (HSeq xs)
    then show ?thesis using kv by (intro plain) (simp_all add: mergedValue_def)
  next
    case (HMap vp)
    show ?thesis
    proof (cases "hlookup h out k")
      case None
      with HMap show ?thesis using kv look by (intro plain) (simp_all add: mergedValue_def)
    next
      case (Some old)
      show ?thesis
      proof (cases old)
        case (HScalar x)
        with HMap Some show ?thesis using kv look by (intro plain) (simp_all add: mergedValue_def)
      next
        case (HSeq xs)
        with HMap Some show ?thesis using kv look by (intro plain) (simp_all add: mergedValue_def)
      next
        case old: (HMap bvp)
        have "(k, HMap bvp) \<in> set (h ! out)"
          using Some old by (simp add: hlookup_def map_of_SomeD)
        with cell have tb: "tree D n h bvp" by force
        have tp: "tree D n h vp" using tD HMap by simp
        obtain r h1 where rec: "hmergeMaps n bvp vp h = Some (r, h1)"
          using run kv HMap Some old by (cases "hmergeMaps n bvp vp h") auto
        from hmergeMaps_result[OF c _ tree_nested(1)[OF tp] rec] tree_allowed[OF tb]
        have r: "r = length h" and l1: "length h < length h1" and e1: "extends h h1"
          and c1: "closed h1" by simp_all
        from P c tb tp rec
        have tr': "tree (\<lambda>q. D q \<or> length h \<le> q) n h1 r"
          and dr: "docOf n h1 r = mergeMaps (docOf n h bvp) (docOf n h vp)"
          by blast+
        have tr: "tree D n h1 r"
          using tree_weaken(1)[OF _ tr', of D] D2 lo by auto
        have fh: "\<forall>q. D q \<longrightarrow> q < length h \<longrightarrow> h1 ! q = h ! q"
          using e1 by (simp add: extends_iff)
        have st: "treeVal D n h1 u \<and> valOf n h1 u = valOf n h u" if "treeVal D n h u" for u
          using tree_stable(2)[OF fh _ that] l1 by simp
        have same: "h1 ! out = h ! out" using e1 lo by (simp add: extends_iff)
        have cellh1: "\<forall>kv\<in>set (h1 ! out). treeVal D n h1 (snd kv)"
          using same cell st by simp
        have abs_h1: "map (absE n h1) (h1 ! out) = ?ao"
          unfolding same using st cell by (intro map_absE_cong) simp
        let ?h = "hstore out k (HMap r) h1"
        have lo1: "out < length h1" using lo l1 by simp
        have trv: "treeVal D n h1 (HMap r)" using tr by simp
        from out_store_step[OF D1 lo1 cellh1 trv, of k]
        have cell2: "\<forall>kv\<in>set (?h ! out). treeVal D n ?h (snd kv)"
          and abs2: "map (absE n ?h) (?h ! out) = store k (valOf n h1 (HMap r)) ?ao"
          by (simp_all add: abs_h1)
        have c2: "closed ?h" using c1 l1 r by (intro closed_hstore) simp_all
        have e2: "extends g ?h"
          using extends_trans[OF e e1] lg by (rule extends_hstore)
        have l2: "out < length ?h" using lo1 by simp
        have r2: "hmergeEntries n bs out ?h = Some h'"
          using run kv HMap Some old rec by simp
        have dvp: "docOf n g vp = docOf n h vp" using veq HMap by simp
        have mv: "mergedValue (lookup ?ao k) (valOf n g v) = valOf n h1 (HMap r)"
          using look Some old HMap dr dvp by (simp add: mergedValue_def del: mergeMaps.simps)
        from Cons.IH[OF c2 e2 lg l2 rest cell2 r2] show ?thesis
          using abs2 pure mv by (simp del: mergeEntries.simps mergeMaps.simps)
      qed
    qed
  qed
qed

lemma hmergeMaps_abs:
  "closed h \<Longrightarrow> tree A n h a \<Longrightarrow> tree A n h b \<Longrightarrow> hmergeMaps n a b h = Some (out, h') \<Longrightarrow>
   tree (\<lambda>q. A q \<or> length h \<le> q) n h' out
   \<and> docOf n h' out = mergeMaps (docOf n h a) (docOf n h b)"
proof (induction n arbitrary: A a b h out h')
  case 0
  then show ?case by simp
next
  case (Suc n)
  note c = Suc.prems(1) and ta = Suc.prems(2) and tb = Suc.prems(3) and run = Suc.prems(4)
  from tree_allowed[OF ta] tree_allowed[OF tb] have la: "a < length h" and lb: "b < length h"
    by simp_all
  from hmergeMaps_result[OF c la tree_nested(1)[OF tb] run]
  have out: "out = length h" and lh': "length h < length h'" by simp_all
  let ?h1 = "h @ [[]]"
  let ?h2 = "hcopyEntries (h ! a) out ?h1"
  let ?D = "\<lambda>q. (A q \<and> q < length h) \<or> length h < q"
  let ?B = "\<lambda>q. A q \<and> q < length h"
  have r2: "hmergeEntries n (h ! b) out ?h2 = Some h'"
    using run la lb out by (auto split: option.splits)
  have ea: "\<forall>kv\<in>set (h ! a). treeVal ?B n h (snd kv)"
    and eb: "\<forall>kv\<in>set (h ! b). treeVal ?B n h (snd kv)"
    using tree_restrict(1)[OF ta] tree_restrict(1)[OF tb] by (simp_all add: list_all_iff)
  have c1: "closed ?h1" using c by (rule closed_alloc)
  have lo1: "out < length ?h1" using out by simp
  have va: "validVal ?h1 v" if "(k, v) \<in> set (h ! a)" for k v
  proof -
    from that ea have "treeVal ?B n h v" by force
    then have "validVal h v"
      using nestedVal_valid[OF tree_nested(2)] by blast
    then show ?thesis by (rule validVal_mono[rotated]) simp
  qed
  from hcopyEntries_ok[OF c1 lo1, of "h ! a"] va
  have c2: "closed ?h2" and l2: "length ?h2 = Suc (length h)"
    and o2: "\<forall>p. p \<noteq> out \<longrightarrow> ?h2 ! p = ?h1 ! p"
    by auto
  have e2: "extends h ?h2"
    using l2 o2 out by (auto simp: extends_iff nth_append)
  have f2: "\<forall>q. ?B q \<longrightarrow> q < length h \<longrightarrow> ?h2 ! q = h ! q"
    using e2 by (simp add: extends_iff)
  have st2: "treeVal ?B n ?h2 u \<and> valOf n ?h2 u = valOf n h u" if "treeVal ?B n h u" for u
    using tree_stable(2)[OF f2 _ that] l2 by simp
  have cell2: "\<forall>kv\<in>set (?h2 ! out). treeVal ?D n ?h2 (snd kv)"
  proof
    fix kv assume "kv \<in> set (?h2 ! out)"
    from hcopyEntries_set[OF lo1 this] out have "kv \<in> set (h ! a)" by simp
    with ea st2 have "treeVal ?B n ?h2 (snd kv)" by blast
    then show "treeVal ?D n ?h2 (snd kv)" by (rule tree_weaken(2)[rotated]) simp
  qed
  have abs2: "map (absE n ?h2) (?h2 ! out) = copyEntries (map (absE n h) (h ! a)) []"
  proof -
    have m: "map (absE n ?h2) (h ! a) = map (absE n h) (h ! a)"
      using ea st2 by (intro map_absE_cong) blast
    have "?h1 ! out = []" using out by simp
    with hcopyEntries_cell[OF lo1, of n ?h2 "h ! a"] show ?thesis
      unfolding m by simp
  qed
  have ebD: "\<forall>kv\<in>set (h ! b). treeVal (\<lambda>q. ?D q \<and> q < length h) n h (snd kv)"
  proof
    fix kv assume "kv \<in> set (h ! b)"
    with eb have "treeVal ?B n h (snd kv)" by blast
    then show "treeVal (\<lambda>q. ?D q \<and> q < length h) n h (snd kv)"
      by (rule tree_weaken(2)[rotated]) simp
  qed
  have P: "\<forall>A a b h out h'. closed h \<longrightarrow> tree A n h a \<longrightarrow> tree A n h b
        \<longrightarrow> hmergeMaps n a b h = Some (out, h')
        \<longrightarrow> tree (\<lambda>q. A q \<or> length h \<le> q) n h' out
            \<and> docOf n h' out = mergeMaps (docOf n h a) (docOf n h b)"
    using Suc.IH by blast
  have D1: "\<forall>q. ?D q \<longrightarrow> q \<noteq> out" and D2: "\<forall>q. out < q \<longrightarrow> ?D q"
    using out by auto
  have lg: "length h \<le> out" and lo2: "out < length ?h2" using out l2 by simp_all
  from hmergeEntries_abs[OF P D1 D2 c2 e2 lg lo2 ebD cell2 r2]
  have cell': "\<forall>kv\<in>set (h' ! out). treeVal ?D n h' (snd kv)"
    and abs': "map (absE n h') (h' ! out)
        = mergeEntries (map (absE n h) (h ! b)) (map (absE n ?h2) (?h2 ! out))"
    by simp_all
  have "docOf (Suc n) h' out = mergeMaps (docOf (Suc n) h a) (docOf (Suc n) h b)"
    unfolding docOf_Suc abs' abs2 by simp
  moreover have "tree (\<lambda>q. A q \<or> length h \<le> q) (Suc n) h' out"
  proof -
    have "\<forall>kv\<in>set (h' ! out). treeVal (\<lambda>q. A q \<or> length h \<le> q) n h' (snd kv)"
    proof
      fix kv assume "kv \<in> set (h' ! out)"
      with cell' have "treeVal ?D n h' (snd kv)" by blast
      then show "treeVal (\<lambda>q. A q \<or> length h \<le> q) n h' (snd kv)"
        by (rule tree_weaken(2)[rotated]) auto
    qed
    then show ?thesis using out lh' by (simp add: list_all_iff)
  qed
  ultimately show ?case by blast
qed

text \<open>
  \<open>hmergeMaps\<close> and \<open>mergeMaps\<close> are the same function seen on the heap and on
  documents: the map returned on the heap stands for the merge of the documents that its
  two arguments stand for.
\<close>

lemma hmergeMaps_refines:
  assumes "closed h" and "tree (\<lambda>q. True) n h a" and "tree (\<lambda>q. True) n h b"
  shows "\<exists>out h'. hmergeMaps n a b h = Some (out, h')
    \<and> docOf n h' out = mergeMaps (docOf n h a) (docOf n h b)"
proof -
  from tree_allowed[OF assms(2)] have la: "a < length h" by simp
  from hmergeMaps_ok[OF assms(1) la tree_nested(1)[OF assms(3)]]
  obtain h' where r: "hmergeMaps n a b h = Some (length h, h')" by blast
  from hmergeMaps_abs[OF assms r] r show ?thesis by blast
qed

section \<open>The recursive merge rule\<close>

text \<open>
  Claim C1. For documents \<open>a\<close> (existing) and \<open>b\<close> (incoming), the merged document
  holds, under every key \<open>k\<close>: the value of \<open>a\<close> when only \<open>a\<close> has the key; the value of
  \<open>b\<close> when only \<open>b\<close> has it; the recursive merge of the two values when both are nested
  documents; and the value of \<open>b\<close> in every other case where both have the key, be it a
  scalar or a sequence that replaces a nested document or a nested document that replaces
  a scalar or a sequence.
\<close>

theorem mergeMaps_recursive_merge_rule:
  assumes "distinct (keys a)" and "distinct (keys b)"
  shows "lookup (mergeMaps a b) k =
    (case lookup b k of
       None \<Rightarrow> lookup a k
     | Some (Doc bm) \<Rightarrow>
         (case lookup a k of
            Some (Doc am) \<Rightarrow> Some (Doc (mergeMaps am bm))
          | _ \<Rightarrow> Some (Doc bm))
     | Some v \<Rightarrow> Some v)"
  using lookup_mergeMaps[OF assms, of k]
  by (simp add: mergedValue_def split: option.splits val.splits)

theorem mergeMaps_recursive_merge_rule_witness:
  "distinct (keys [(''a'', Doc [(''x'', Scalar (SInt 1))]), (''b'', Scalar (SInt 7))])
   \<and> distinct (keys [(''a'', Doc [(''y'', Scalar (SInt 2))]), (''c'', Seq [])])
   \<and> lookup (mergeMaps [(''a'', Doc [(''x'', Scalar (SInt 1))]), (''b'', Scalar (SInt 7))]
                        [(''a'', Doc [(''y'', Scalar (SInt 2))]), (''c'', Seq [])]) ''a''
     = Some (Doc [(''x'', Scalar (SInt 1)), (''y'', Scalar (SInt 2))])"
proof -
  have da: "distinct (keys [(''a'', Doc [(''x'', Scalar (SInt 1))]), (''b'', Scalar (SInt 7))])"
    by (simp add: keys_def)
  have db: "distinct (keys [(''a'', Doc [(''y'', Scalar (SInt 2))]), (''c'', Seq [])])"
    by (simp add: keys_def)
  show ?thesis
    using da db mergeMaps_recursive_merge_rule[OF da db, of "''a''"]
    by (simp add: lookup_def store_def)
qed

section \<open>Algebraic laws of the merge\<close>

text \<open>
  Claim C8. The empty document is a two-sided identity of the deep merge: merging a
  document with the empty document, on either side, gives a document semantically equal
  to it.
\<close>

theorem mergeMaps_empty_identity:
  assumes "wfDoc a"
  shows "docEq (mergeMaps a []) a \<and> docEq (mergeMaps [] a) a"
  using mergeMaps_empty_right[OF wfDoc_distinct[OF assms]]
    mergeMaps_empty_left[OF wfDoc_distinct[OF assms]] docEq_refl[OF assms]
  by (simp del: mergeMaps.simps)

theorem mergeMaps_empty_identity_witness:
  "wfDoc [(''a'', Doc [(''x'', Scalar (SInt 1))]), (''b'', Seq [Scalar SNull])]
   \<and> docEq (mergeMaps [(''a'', Doc [(''x'', Scalar (SInt 1))]), (''b'', Seq [Scalar SNull])] [])
        [(''a'', Doc [(''x'', Scalar (SInt 1))]), (''b'', Seq [Scalar SNull])]
   \<and> docEq (mergeMaps [] [(''a'', Doc [(''x'', Scalar (SInt 1))]), (''b'', Seq [Scalar SNull])])
        [(''a'', Doc [(''x'', Scalar (SInt 1))]), (''b'', Seq [Scalar SNull])]"
proof -
  have w: "wfDoc [(''a'', Doc [(''x'', Scalar (SInt 1))]), (''b'', Seq [Scalar SNull])]"
    by (simp add: wfDoc_iff keys_def)
  show ?thesis
    using w mergeMaps_empty_identity[OF w] by (simp del: mergeMaps.simps)
qed

text \<open>
  Claim C9. The deep merge is idempotent: merging a document with itself gives a
  document semantically equal to it.
\<close>

theorem mergeMaps_idempotent:
  assumes "wfDoc a"
  shows "docEq (mergeMaps a a) a"
  using mergeMaps_idem[OF assms] docEq_refl[OF assms]
  by (simp del: mergeMaps.simps)

theorem mergeMaps_idempotent_witness:
  "wfDoc [(''a'', Doc [(''x'', Scalar (SInt 1)), (''y'', Doc [])]), (''b'', Scalar (SStr ''s''))]
   \<and> docEq (mergeMaps [(''a'', Doc [(''x'', Scalar (SInt 1)), (''y'', Doc [])]), (''b'', Scalar (SStr ''s''))]
                       [(''a'', Doc [(''x'', Scalar (SInt 1)), (''y'', Doc [])]), (''b'', Scalar (SStr ''s''))])
        [(''a'', Doc [(''x'', Scalar (SInt 1)), (''y'', Doc [])]), (''b'', Scalar (SStr ''s''))]"
proof -
  have w: "wfDoc [(''a'', Doc [(''x'', Scalar (SInt 1)), (''y'', Doc [])]), (''b'', Scalar (SStr ''s''))]"
    by (simp add: wfDoc_iff keys_def)
  show ?thesis
    using w mergeMaps_idempotent[OF w] by (simp del: mergeMaps.simps)
qed

section \<open>Order of processing\<close>

text \<open>
  Claim C2. \<^verbatim>\<open>MergeValues\<close> processes all values-files first and then the five kinds of
  assignment expression in the order JSON-fragment, plain, string-forced, file-content,
  literal. When the pass of the specification over the steps in that order ends with a
  document, \<^verbatim>\<open>MergeValues\<close> returns that document and no error, and the environment is
  the one the pass left; when the pass fails, \<^verbatim>\<open>MergeValues\<close> returns no document and
  an error. In particular, when for the plain assignment \<^verbatim>\<open>a=1\<close> the parser binds \<open>a\<close>
  to the number 1 in the empty document, and for the string-forced assignment \<^verbatim>\<open>a=1\<close>
  the parser turns that document into the one that binds \<open>a\<close> to the string \<^verbatim>\<open>"1"\<close>,
  giving both assignments returns \<open>a\<close> bound to the string: the string-forced parser
  works on what the plain parser left.
\<close>

theorem MergeValues_priority_order:
  assumes "ParseInto lib ''a=1'' [] = Inr [(''a'', Scalar (SInt 1))]"
    and "ParseIntoString lib ''a=1'' [(''a'', Scalar (SInt 1))] = Inr [(''a'', Scalar (SStr ''1''))]"
  shows
   "(case specPass lib
            (map ValueFile (ValueFiles opts) @ map JSONValue (JSONValues opts)
             @ map SetValue (Values opts) @ map StringValue (StringValues opts)
             @ map FileValue (FileValues opts) @ map LiteralValue (LiteralValues opts)) [] w of
       (Inr merged, w') \<Rightarrow> MergeValues lib opts w = ((Some merged, None), w')
     | (Inl err, w') \<Rightarrow>
         fst (fst (MergeValues lib opts w)) = None
         \<and> snd (fst (MergeValues lib opts w)) \<noteq> None
         \<and> snd (MergeValues lib opts w) = w')
    \<and> MergeValues lib (noOptions\<lparr>Values := [''a=1''], StringValues := [''a=1'']\<rparr>) w
        = ((Some [(''a'', Scalar (SStr ''1''))], None), w)"
proof (intro conjI)
  let ?steps = "map ValueFile (ValueFiles opts) @ map JSONValue (JSONValues opts)
             @ map SetValue (Values opts) @ map StringValue (StringValues opts)
             @ map FileValue (FileValues opts) @ map LiteralValue (LiteralValues opts)"
  have o: "priorityOrder opts = ?steps" by (simp add: priorityOrder_def)
  obtain r w' where p: "specPass lib ?steps [] w = (r, w')" by (cases "specPass lib ?steps [] w")
  show "case specPass lib ?steps [] w of
       (Inr merged, w') \<Rightarrow> MergeValues lib opts w = ((Some merged, None), w')
     | (Inl err, w') \<Rightarrow>
         fst (fst (MergeValues lib opts w)) = None
         \<and> snd (fst (MergeValues lib opts w)) \<noteq> None
         \<and> snd (MergeValues lib opts w) = w'"
  proof (cases r)
    case (Inr merged)
    with p pass_succeeds[of lib ?steps "[]" w merged w'] show ?thesis
      by (simp add: MergeValues_as_steps o finish_def)
  next
    case (Inl err)
    with p pass_fails[of lib ?steps "[]" w err w'] show ?thesis
      by (auto simp: MergeValues_as_steps o finish_def)
  qed
  show "MergeValues lib (noOptions\<lparr>Values := [''a=1''], StringValues := [''a=1'']\<rparr>) w
        = ((Some [(''a'', Scalar (SStr ''1''))], None), w)"
    by (simp add: MergeValues_def noOptions_def setValue_def stringValue_def assms)
qed

theorem MergeValues_priority_order_witness:
  "ParseInto sampleLib ''a=1'' [] = Inr [(''a'', Scalar (SInt 1))]
   \<and> ParseIntoString sampleLib ''a=1'' [(''a'', Scalar (SInt 1))] = Inr [(''a'', Scalar (SStr ''1''))]
   \<and> specPass sampleLib [SetValue ''a=1'', StringValue ''a=1''] [] sampleWorld
        = (Inr [(''a'', Scalar (SStr ''1''))], sampleWorld)
   \<and> MergeValues sampleLib (noOptions\<lparr>Values := [''a=1''], StringValues := [''a=1'']\<rparr>) sampleWorld
        = ((Some [(''a'', Scalar (SStr ''1''))], None), sampleWorld)
   \<and> specPass sampleLib [ValueFile ''values.yaml'', ValueFile ''override.yaml'', SetValue ''a=1'']
        [] sampleWorld
        = (Inr [(''a'', Scalar (SInt 1))],
           sampleWorld\<lparr>events := [OpenFile ''values.yaml'', OpenFile ''override.yaml'']\<rparr>)
   \<and> MergeValues sampleLib
        (noOptions\<lparr>ValueFiles := [''values.yaml'', ''override.yaml''], Values := [''a=1'']\<rparr>)
        sampleWorld
        = ((Some [(''a'', Scalar (SInt 1))], None),
           sampleWorld\<lparr>events := [OpenFile ''values.yaml'', OpenFile ''override.yaml'']\<rparr>)"
proof -
  have 1: "ParseInto sampleLib ''a=1'' [] = Inr [(''a'', Scalar (SInt 1))]"
    by (simp add: sampleLib_def sampleParseInto_def store_def)
  have 2: "ParseIntoString sampleLib ''a=1'' [(''a'', Scalar (SInt 1))]
      = Inr [(''a'', Scalar (SStr ''1''))]"
    by (simp add: sampleLib_def sampleParseIntoString_def store_def)
  have 3: "specPass sampleLib [SetValue ''a=1'', StringValue ''a=1''] [] sampleWorld
        = (Inr [(''a'', Scalar (SStr ''1''))], sampleWorld)"
    by (simp add: sample_simps step_simps)
  have 4: "specPass sampleLib [ValueFile ''values.yaml'', ValueFile ''override.yaml'', SetValue ''a=1'']
        [] sampleWorld
        = (Inr [(''a'', Scalar (SInt 1))],
           sampleWorld\<lparr>events := [OpenFile ''values.yaml'', OpenFile ''override.yaml'']\<rparr>)"
    by (simp add: sample_simps step_simps)
  show ?thesis
    using 1 2 3 4
      MergeValues_priority_order[OF 1 2,
        of "noOptions\<lparr>Values := [''a=1''], StringValues := [''a=1'']\<rparr>" sampleWorld]
      MergeValues_priority_order[OF 1 2,
        of "noOptions\<lparr>ValueFiles := [''values.yaml'', ''override.yaml''], Values := [''a=1'']\<rparr>"
          sampleWorld]
    by (simp add: noOptions_def)
qed

section \<open>Errors\<close>



text \<open>
  Claim C4, as the code has it. When the content of a values-file does not parse, the
  text of the returned error contains the file path. When a JSON-fragment assignment does
  not parse, the text of the returned error contains the raw expression. For the four
  other kinds the returned error is the error of the parser (or of the read it made)
  wrapped under a fixed label that names the option, and its text is the label followed
  by the text of that error: the expression is in it only as far as the parser put it
  there.
\<close>

theorem MergeValues_parse_error_text:
  assumes "priorityOrder opts = pre @ s # post"
    and "specPass lib pre [] w = (Inr base, w1)"
  shows
   "(\<forall>filePath bytes w2 err.
       s = ValueFile filePath \<longrightarrow> readFile lib filePath w1 = (Inr bytes, w2)
       \<longrightarrow> Unmarshal lib bytes = Inl err
       \<longrightarrow> (\<exists>e. MergeValues lib opts w = ((None, Some e), w2) \<and> sublist filePath (errorText e)))
  \<and> (\<forall>value err.
       s = JSONValue value \<longrightarrow> ParseJSON lib value base = Inl err
       \<longrightarrow> (\<exists>e. MergeValues lib opts w = ((None, Some e), w1) \<and> sublist value (errorText e)))
  \<and> (\<forall>value err.
       s = SetValue value \<longrightarrow> ParseInto lib value base = Inl err
       \<longrightarrow> MergeValues lib opts w = ((None, Some (Wrap err ''failed parsing --set data'')), w1)
         \<and> errorText (Wrap err ''failed parsing --set data'')
             = ''failed parsing --set data: '' @ errorText err)
  \<and> (\<forall>value err.
       s = StringValue value \<longrightarrow> ParseIntoString lib value base = Inl err
       \<longrightarrow> MergeValues lib opts w = ((None, Some (Wrap err ''failed parsing --set-string data'')), w1)
         \<and> errorText (Wrap err ''failed parsing --set-string data'')
             = ''failed parsing --set-string data: '' @ errorText err)
  \<and> (\<forall>value err w2.
       s = FileValue value \<longrightarrow> ParseIntoFile lib value base (reader lib) w1 = (Inl err, w2)
       \<longrightarrow> MergeValues lib opts w = ((None, Some (Wrap err ''failed parsing --set-file data'')), w2)
         \<and> errorText (Wrap err ''failed parsing --set-file data'')
             = ''failed parsing --set-file data: '' @ errorText err)
  \<and> (\<forall>value err.
       s = LiteralValue value \<longrightarrow> ParseLiteralInto lib value base = Inl err
       \<longrightarrow> MergeValues lib opts w = ((None, Some (Wrap err ''failed parsing --set-literal data'')), w1)
         \<and> errorText (Wrap err ''failed parsing --set-literal data'')
             = ''failed parsing --set-literal data: '' @ errorText err)"
proof -
  have ff: "runStep lib s base w1 = (Inl e, w2) \<Longrightarrow> MergeValues lib opts w = ((None, Some e), w2)"
    for e w2
    by (rule MergeValues_first_failure[OF assms])
  have 1: "\<exists>e. MergeValues lib opts w = ((None, Some e), w2) \<and> sublist filePath (errorText e)"
    if "s = ValueFile filePath" "readFile lib filePath w1 = (Inr bytes, w2)" "Unmarshal lib bytes = Inl err"
    for filePath bytes w2 err
  proof -
    have "MergeValues lib opts w = ((None, Some (Wrap err (''failed to parse '' @ filePath))), w2)"
      using that by (intro ff) (simp add: valueFile_def)
    moreover have "sublist filePath (errorText (Wrap err (''failed to parse '' @ filePath)))"
      using sublist_mid[of filePath "''failed to parse ''" "'': '' @ errorText err"] by simp
    ultimately show ?thesis by blast
  qed
  have 2: "\<exists>e. MergeValues lib opts w = ((None, Some e), w1) \<and> sublist expr (errorText e)"
    if "s = JSONValue expr" "ParseJSON lib expr base = Inl err" for expr err
  proof -
    have "MergeValues lib opts w = ((None, Some (Errorf (''failed parsing --set-json data '' @ expr))), w1)"
      using that by (intro ff) (simp add: jsonValue_def)
    moreover have "sublist expr (errorText (Errorf (''failed parsing --set-json data '' @ expr)))"
      using sublist_end[of expr "''failed parsing --set-json data ''"] by simp
    ultimately show ?thesis by blast
  qed
  have 3: "MergeValues lib opts w = ((None, Some (Wrap err ''failed parsing --set data'')), w1)"
    if "s = SetValue expr" "ParseInto lib expr base = Inl err" for expr err
    using that by (intro ff) (simp add: setValue_def)
  have 4: "MergeValues lib opts w = ((None, Some (Wrap err ''failed parsing --set-string data'')), w1)"
    if "s = StringValue expr" "ParseIntoString lib expr base = Inl err" for expr err
    using that by (intro ff) (simp add: stringValue_def)
  have 5: "MergeValues lib opts w = ((None, Some (Wrap err ''failed parsing --set-file data'')), w2)"
    if "s = FileValue expr" "ParseIntoFile lib expr base (reader lib) w1 = (Inl err, w2)" for expr err w2
    using that by (intro ff) (simp add: fileValue_def)
  have 6: "MergeValues lib opts w = ((None, Some (Wrap err ''failed parsing --set-literal data'')), w1)"
    if "s = LiteralValue expr" "ParseLiteralInto lib expr base = Inl err" for expr err
    using that by (intro ff) (simp add: literalValue_def)
  show ?thesis
    using 1 2 3 4 5 6 by (intro conjI allI impI) simp_all
qed

theorem MergeValues_parse_error_text_witness:
  "MergeValues sampleLib (noOptions\<lparr>ValueFiles := [''broken.yaml'']\<rparr>) sampleWorld
     = ((None, Some (Wrap notAllowed ''failed to parse broken.yaml'')),
        sampleWorld\<lparr>events := [OpenFile ''broken.yaml'']\<rparr>)
   \<and> sublist ''broken.yaml'' (errorText (Wrap notAllowed ''failed to parse broken.yaml''))
   \<and> MergeValues sampleLib (noOptions\<lparr>JSONValues := [''a={'']\<rparr>) sampleWorld
     = ((None, Some (Errorf ''failed parsing --set-json data a={'')), sampleWorld)
   \<and> sublist ''a={'' (errorText (Errorf ''failed parsing --set-json data a={''))
   \<and> MergeValues sampleLib (noOptions\<lparr>Values := [''x=1,a'']\<rparr>) sampleWorld
     = ((None, Some (Wrap (noValue ''a'') ''failed parsing --set data'')), sampleWorld)
   \<and> MergeValues sampleLib (noOptions\<lparr>StringValues := [''x=1,a'']\<rparr>) sampleWorld
     = ((None, Some (Wrap (noValue ''a'') ''failed parsing --set-string data'')), sampleWorld)
   \<and> MergeValues sampleLib (noOptions\<lparr>FileValues := [''x=1,a'']\<rparr>) sampleWorld
     = ((None, Some (Wrap (Opaque ''open 1: no such file or directory'')
                       ''failed parsing --set-file data'')),
        sampleWorld\<lparr>events := [OpenFile ''1'']\<rparr>)
   \<and> MergeValues sampleLib (noOptions\<lparr>LiteralValues := [''a.b'']\<rparr>) sampleWorld
     = ((None, Some (Wrap (noValue ''b'') ''failed parsing --set-literal data'')), sampleWorld)"
proof -
  have start: "specPass sampleLib [] [] sampleWorld = (Inr [], sampleWorld)"
    by simp
  have o1: "priorityOrder (noOptions\<lparr>ValueFiles := [''broken.yaml'']\<rparr>) = [] @ ValueFile ''broken.yaml'' # []"
    and o2: "priorityOrder (noOptions\<lparr>JSONValues := [''a={'']\<rparr>) = [] @ JSONValue ''a={'' # []"
    and o3: "priorityOrder (noOptions\<lparr>Values := [''x=1,a'']\<rparr>) = [] @ SetValue ''x=1,a'' # []"
    and o4: "priorityOrder (noOptions\<lparr>StringValues := [''x=1,a'']\<rparr>) = [] @ StringValue ''x=1,a'' # []"
    and o5: "priorityOrder (noOptions\<lparr>FileValues := [''x=1,a'']\<rparr>) = [] @ FileValue ''x=1,a'' # []"
    and o6: "priorityOrder (noOptions\<lparr>LiteralValues := [''a.b'']\<rparr>) = [] @ LiteralValue ''a.b'' # []"
    by (simp_all add: priorityOrder_def noOptions_def)
  have r1: "readFile sampleLib ''broken.yaml'' sampleWorld
      = (Inr ''a: b: c'', sampleWorld\<lparr>events := [OpenFile ''broken.yaml'']\<rparr>)"
    and p2: "ParseJSON sampleLib ''a={'' [] = Inl (Opaque ''unexpected EOF'')"
    and p3: "ParseInto sampleLib ''x=1,a'' [] = Inl (noValue ''a'')"
    and p4: "ParseIntoString sampleLib ''x=1,a'' [] = Inl (noValue ''a'')"
    and p5: "ParseIntoFile sampleLib ''x=1,a'' [] (reader sampleLib) sampleWorld
      = (Inl (Opaque ''open 1: no such file or directory''), sampleWorld\<lparr>events := [OpenFile ''1'']\<rparr>)"
    and p6: "ParseLiteralInto sampleLib ''a.b'' [] = Inl (noValue ''b'')"
    by (simp_all add: sample_simps step_simps)
  have u1: "Unmarshal sampleLib ''a: b: c'' = Inl notAllowed"
    by (simp add: sampleLib_def sampleUnmarshal_def)
  have m1: "MergeValues sampleLib (noOptions\<lparr>ValueFiles := [''broken.yaml'']\<rparr>) sampleWorld
     = ((None, Some (Wrap notAllowed ''failed to parse broken.yaml'')),
        sampleWorld\<lparr>events := [OpenFile ''broken.yaml'']\<rparr>)"
    by (simp add: MergeValues_def sampleLib_def sampleWorld_def sampleFiles_def sampleUnmarshal_def
        trimASCII_def asciiSpace_def noOptions_def step_simps)
  have m2: "MergeValues sampleLib (noOptions\<lparr>JSONValues := [''a={'']\<rparr>) sampleWorld
     = ((None, Some (Errorf ''failed parsing --set-json data a={'')), sampleWorld)"
    by (simp add: MergeValues_def sample_simps step_simps)
  have t1: "sublist ''broken.yaml'' (errorText (Wrap notAllowed ''failed to parse broken.yaml''))"
    using sublist_mid[of "''broken.yaml''" "''failed to parse ''" "'': '' @ errorText notAllowed"]
    by simp
  show ?thesis
    using MergeValues_parse_error_text[OF o1 start] MergeValues_parse_error_text[OF o2 start]
      MergeValues_parse_error_text[OF o3 start] MergeValues_parse_error_text[OF o4 start]
      MergeValues_parse_error_text[OF o5 start] MergeValues_parse_error_text[OF o6 start]
      r1 u1 p2 p3 p4 p5 p6 m1 m2 t1
    by (simp add: sublist_Cons_right)
qed

text \<open>
  Claim C4, as stated, fails for each of the plain, string-forced, file-content and
  literal kinds. For the plain and the string-forced expression \<^verbatim>\<open>x=1,a\<close> the parser
  reports that key \<^verbatim>\<open>a\<close> has no value; for the file-content expression \<^verbatim>\<open>x=1,a\<close> the
  parser reads the file \<^verbatim>\<open>1\<close>, which does not exist, and reports the error of the read;
  for the literal expression \<^verbatim>\<open>a.b\<close> the parser reports that key \<^verbatim>\<open>b\<close> has no value.
  \<^verbatim>\<open>MergeValues\<close> puts the label of the option in front, and the raw expression occurs
  nowhere in the text of the returned error.
\<close>

theorem MergeValues_set_error_counterexample:
  "MergeValues sampleLib (noOptions\<lparr>Values := [''x=1,a'']\<rparr>) sampleWorld
       = ((None, Some (Wrap (noValue ''a'') ''failed parsing --set data'')), sampleWorld)
   \<and> errorText (Wrap (noValue ''a'') ''failed parsing --set data'')
       = ''failed parsing --set data: key '' @ [CHR 0x22] @ ''a'' @ [CHR 0x22] @ '' has no value''
   \<and> \<not> sublist ''x=1,a'' (errorText (Wrap (noValue ''a'') ''failed parsing --set data''))
   \<and> MergeValues sampleLib (noOptions\<lparr>StringValues := [''x=1,a'']\<rparr>) sampleWorld
       = ((None, Some (Wrap (noValue ''a'') ''failed parsing --set-string data'')), sampleWorld)
   \<and> \<not> sublist ''x=1,a'' (errorText (Wrap (noValue ''a'') ''failed parsing --set-string data''))
   \<and> MergeValues sampleLib (noOptions\<lparr>FileValues := [''x=1,a'']\<rparr>) sampleWorld
       = ((None, Some (Wrap (Opaque ''open 1: no such file or directory'')
                         ''failed parsing --set-file data'')),
          sampleWorld\<lparr>events := [OpenFile ''1'']\<rparr>)
   \<and> \<not> sublist ''x=1,a''
         (errorText (Wrap (Opaque ''open 1: no such file or directory'')
                      ''failed parsing --set-file data''))
   \<and> MergeValues sampleLib (noOptions\<lparr>LiteralValues := [''a.b'']\<rparr>) sampleWorld
       = ((None, Some (Wrap (noValue ''b'') ''failed parsing --set-literal data'')), sampleWorld)
   \<and> \<not> sublist ''a.b'' (errorText (Wrap (noValue ''b'') ''failed parsing --set-literal data''))"
  by (simp add: MergeValues_def sample_simps step_simps sublist_Cons_right)

text \<open>
  Claim C5 fails on the JSON-fragment path. For the expression \<^verbatim>\<open>a={\<close> the parser's
  error is \<^verbatim>\<open>unexpected EOF\<close>; \<^verbatim>\<open>MergeValues\<close> returns a new error made by
  \<^verbatim>\<open>errors.Errorf\<close> from the expression alone, so the parser's error is neither a cause
  of the returned error nor part of its text. The plain path next to it wraps the
  parser's error and keeps it as the cause.
\<close>

theorem MergeValues_set_json_drops_cause:
  "ParseJSON sampleLib ''a={'' [] = Inl (Opaque ''unexpected EOF'')
   \<and> MergeValues sampleLib (noOptions\<lparr>JSONValues := [''a={'']\<rparr>) sampleWorld
       = ((None, Some (Errorf ''failed parsing --set-json data a={'')), sampleWorld)
   \<and> Opaque ''unexpected EOF'' \<notin> set (chain (Errorf ''failed parsing --set-json data a={''))
   \<and> \<not> sublist ''unexpected EOF'' (errorText (Errorf ''failed parsing --set-json data a={''))
   \<and> ParseInto sampleLib ''x=1,a'' [] = Inl (noValue ''a'')
   \<and> MergeValues sampleLib (noOptions\<lparr>Values := [''x=1,a'']\<rparr>) sampleWorld
       = ((None, Some (Wrap (noValue ''a'') ''failed parsing --set data'')), sampleWorld)
   \<and> noValue ''a'' \<in> set (chain (Wrap (noValue ''a'') ''failed parsing --set data''))"
  by (simp add: MergeValues_def sample_simps step_simps sublist_Cons_right)

section \<open>Reading a file or standard input\<close>

text \<open>
  Claim C6. A file reference whose path is \<^verbatim>\<open>-\<close> once the surrounding white space is
  trimmed is read from standard input: the result is the whole of the remaining stream,
  nothing of the stream is left, and the only read attempted is the one of standard
  input, so no file is opened. Any other path is opened as it was given and the result is
  what the file system returns for it. Both kinds of file reference go through this
  function: the loop over the values-files performs exactly the reads of \<open>readFile\<close> on
  the path, and the parser of file-content assignments is handed \<open>reader\<close>, which is
  \<open>readFile\<close> with the bytes turned into a string value.
\<close>

theorem readFile_stdin_or_file:
  "(TrimSpace lib filePath = ''-'' \<longrightarrow>
      fst (readFile lib filePath w) = (case stdinError w of Some err \<Rightarrow> Inl err | None \<Rightarrow> Inr (stdin w))
      \<and> stdin (snd (readFile lib filePath w)) = []
      \<and> events (snd (readFile lib filePath w)) = events w @ [ReadStdin])
   \<and> (TrimSpace lib filePath \<noteq> ''-'' \<longrightarrow>
      fst (readFile lib filePath w) = files w filePath
      \<and> stdin (snd (readFile lib filePath w)) = stdin w
      \<and> events (snd (readFile lib filePath w)) = events w @ [OpenFile filePath])
   \<and> snd (valueFile lib filePath base w) = snd (readFile lib filePath w)
   \<and> reader lib filePath w =
       (map_sum id (\<lambda>bytes. Scalar (SStr bytes)) (fst (readFile lib filePath w)),
        snd (readFile lib filePath w))
   \<and> fst (fileValue lib value base w) =
       map_sum (\<lambda>err. Wrap err ''failed parsing --set-file data'') id
         (fst (ParseIntoFile lib value base (reader lib) w))
   \<and> snd (fileValue lib value base w) = snd (ParseIntoFile lib value base (reader lib) w)"
proof (intro conjI impI)
  show "snd (valueFile lib filePath base w) = snd (readFile lib filePath w)"
    by (simp add: valueFile_def split: prod.splits sum.splits)
  show "reader lib filePath w =
       (map_sum id (\<lambda>bytes. Scalar (SStr bytes)) (fst (readFile lib filePath w)),
        snd (readFile lib filePath w))"
    by (simp add: reader_def split: prod.splits sum.splits)
  show "fst (fileValue lib value base w) =
       map_sum (\<lambda>err. Wrap err ''failed parsing --set-file data'') id
         (fst (ParseIntoFile lib value base (reader lib) w))"
    by (simp add: fileValue_def split: prod.splits sum.splits)
  show "snd (fileValue lib value base w) = snd (ParseIntoFile lib value base (reader lib) w)"
    by (simp add: fileValue_def split: prod.splits sum.splits)
qed (simp_all add: readFile_def ReadAllStdin_def ReadFile_def)

theorem readFile_stdin_or_file_witness:
  "TrimSpace sampleLib '' - '' = ''-''
   \<and> fst (readFile sampleLib '' - '' sampleWorld) = Inr ''{a: 5}''
   \<and> stdin (snd (readFile sampleLib '' - '' sampleWorld)) = []
   \<and> events (snd (readFile sampleLib '' - '' sampleWorld)) = [ReadStdin]
   \<and> TrimSpace sampleLib ''values.yaml'' \<noteq> ''-''
   \<and> fst (readFile sampleLib ''values.yaml'' sampleWorld) = Inr ''{a: {x: 1}}''
   \<and> events (snd (readFile sampleLib ''values.yaml'' sampleWorld)) = [OpenFile ''values.yaml'']"
proof -
  have 1: "TrimSpace sampleLib '' - '' = ''-''" by (simp add: sample_simps)
  have 2: "TrimSpace sampleLib ''values.yaml'' \<noteq> ''-''" by (simp add: sample_simps)
  show ?thesis
    using 1 2 readFile_stdin_or_file[of sampleLib "'' - ''" sampleWorld "[]" "[]"]
      readFile_stdin_or_file[of sampleLib "''values.yaml''" sampleWorld "[]" "[]"]
    by (simp add: sampleWorld_def sampleFiles_def)
qed

section \<open>Determinism\<close>

text \<open>
  Claim C7. \<^verbatim>\<open>MergeValues\<close> is deterministic. Take two runs on the same options, files
  and standard input, in which the external libraries return the same errors and
  semantically equal documents, possibly with their entries in a different order. The
  two runs leave the same environment, return the same error or none, and return
  semantically equal documents. \<^verbatim>\<open>mergeMaps\<close> itself takes semantically equal arguments
  to semantically equal results, so the order in which a \<^verbatim>\<open>range\<close> loop visits the keys
  of a map does not show in the result.
\<close>

theorem MergeValues_deterministic:
  assumes "sameLibrary lib lib'"
  shows "snd (MergeValues lib opts w) = snd (MergeValues lib' opts w)
    \<and> snd (fst (MergeValues lib opts w)) = snd (fst (MergeValues lib' opts w))
    \<and> rel_option docEq (fst (fst (MergeValues lib opts w))) (fst (fst (MergeValues lib' opts w)))
    \<and> (\<forall>a a' b b'. docRel a a' \<and> docRel b b' \<longrightarrow> docEq (mergeMaps a b) (mergeMaps a' b'))"
proof -
  from forEach_same[OF assms docRel_Nil, of "priorityOrder opts" w]
  have sr: "sameResult (forEach (runStep lib) (priorityOrder opts) [] w)
      (forEach (runStep lib') (priorityOrder opts) [] w)" .
  obtain r w1 where a: "forEach (runStep lib) (priorityOrder opts) [] w = (r, w1)"
    by (cases "forEach (runStep lib) (priorityOrder opts) [] w")
  obtain r' w1' where b: "forEach (runStep lib') (priorityOrder opts) [] w = (r', w1')"
    by (cases "forEach (runStep lib') (priorityOrder opts) [] w")
  from sr a b have ww: "w1' = w1" and rr: "rel_sum (=) docRel r r'" by (simp_all add: sameResult_def)
  have m: "docEq (mergeMaps a b) (mergeMaps a' b')" if "docRel a a' \<and> docRel b b'" for a a' b b'
    using that docRel_mergeMaps[of a a' b b'] by (simp add: docRel_def del: mergeMaps.simps)
  from rr a b ww m show ?thesis
    by (cases r; cases r') (simp_all add: MergeValues_as_steps finish_def docRel_def del: mergeMaps.simps)
qed

theorem MergeValues_deterministic_witness:
  "sameLibrary sampleLib permutedLib
   \<and> fst (MergeValues sampleLib (noOptions\<lparr>ValueFiles := [''both.yaml'', ''override.yaml'']\<rparr>) sampleWorld)
     = (Some [(''a'', Doc [(''x'', Scalar (SFloat 1)), (''z'', Scalar (SFloat 2))]),
              (''b'', Seq [Scalar (SBool True)])], None)
   \<and> fst (MergeValues permutedLib (noOptions\<lparr>ValueFiles := [''both.yaml'', ''override.yaml'']\<rparr>) sampleWorld)
     = (Some [(''b'', Seq [Scalar (SBool True)]),
              (''a'', Doc [(''x'', Scalar (SFloat 1)), (''z'', Scalar (SFloat 2))])], None)
   \<and> docEq [(''a'', Doc [(''x'', Scalar (SFloat 1)), (''z'', Scalar (SFloat 2))]),
             (''b'', Seq [Scalar (SBool True)])]
            [(''b'', Seq [Scalar (SBool True)]),
             (''a'', Doc [(''x'', Scalar (SFloat 1)), (''z'', Scalar (SFloat 2))])]"
proof -
  have 1: "fst (MergeValues sampleLib (noOptions\<lparr>ValueFiles := [''both.yaml'', ''override.yaml'']\<rparr>) sampleWorld)
     = (Some [(''a'', Doc [(''x'', Scalar (SFloat 1)), (''z'', Scalar (SFloat 2))]),
              (''b'', Seq [Scalar (SBool True)])], None)"
    by (simp add: MergeValues_def sample_simps step_simps)
  have 2: "fst (MergeValues permutedLib (noOptions\<lparr>ValueFiles := [''both.yaml'', ''override.yaml'']\<rparr>) sampleWorld)
     = (Some [(''b'', Seq [Scalar (SBool True)]),
              (''a'', Doc [(''x'', Scalar (SFloat 1)), (''z'', Scalar (SFloat 2))])], None)"
    by (simp add: MergeValues_def permutedLib_def sample_simps step_simps)
  show ?thesis
    using sameLibrary_sample 1 2
      MergeValues_deterministic[OF sameLibrary_sample,
        of "noOptions\<lparr>ValueFiles := [''both.yaml'', ''override.yaml'']\<rparr>" sampleWorld]
    by simp
qed

section \<open>What mergeMaps writes\<close>

text \<open>
  Claim C10. \<^verbatim>\<open>mergeMaps\<close> does not modify its arguments. On a closed heap, for a map
  \<open>a\<close> in the heap and a map \<open>b\<close> nested no deeper than the bound, the call returns; the
  map it returns is at an address that was not in the heap before; every map that was in
  the heap, so both arguments and all their nested maps, is the same after the call; and
  the keys of the returned map are the keys of \<open>a\<close> together with the keys of \<open>b\<close>.
\<close>

theorem hmergeMaps_frame:
  assumes "closed h" and "a < length h" and "nested n h b" and "n \<le> m"
  shows "\<exists>out h'. hmergeMaps m a b h = Some (out, h')
    \<and> \<not> out < length h \<and> out < length h'
    \<and> (\<forall>p. p < length h \<longrightarrow> h' ! p = h ! p)
    \<and> set (map fst (h' ! out)) = set (map fst (h ! a)) \<union> set (map fst (h ! b))"
proof -
  from nested_mono[OF assms(4,3)] have "nested m h b" .
  from hmergeMaps_ok[OF assms(1,2) this] show ?thesis
    by (auto simp: extends_iff hkeys_def)
qed

theorem hmergeMaps_frame_witness:
  "closed sampleHeap \<and> (0::nat) < length sampleHeap \<and> nested 2 sampleHeap 1 \<and> (2::nat) \<le> 2
   \<and> hmergeMaps 2 0 1 sampleHeap =
       Some (4, sampleHeap @
         [[(''a'', HMap 5), (''b'', HScalar (SInt 7)), (''c'', HSeq [])],
          [(''x'', HScalar (SInt 1)), (''y'', HScalar (SInt 2))]])"
proof -
  have 1: "closed sampleHeap" by (simp add: closed_def sampleHeap_def)
  have 2: "0 < length sampleHeap" by (simp add: sampleHeap_def)
  have 3: "nested 2 sampleHeap 1" by (simp add: sampleHeap_def numeral_2_eq_2)
  have 4: "hmergeMaps 2 0 1 sampleHeap =
       Some (4, sampleHeap @
         [[(''a'', HMap 5), (''b'', HScalar (SInt 7)), (''c'', HSeq [])],
          [(''x'', HScalar (SInt 1)), (''y'', HScalar (SInt 2))]])"
    by (simp add: sampleHeap_def numeral_2_eq_2 hstore_def hlookup_def)
  show ?thesis
    using 1 2 3 4 hmergeMaps_frame[OF 1 2 3, of 2] by simp
qed

end
